theory Spec2Isabelle
  imports Complex_Main "HOL-Library.Sublist" "HOL-Library.Word"
begin

section \<open>Library constants\<close>

text \<open>
  The player is built on FFmpeg and SDL2. Four of their constants appear in the code
  that is modelled below: \<^verbatim>\<open>AV_TIME_BASE\<close> (microseconds per second),
  \<^verbatim>\<open>AV_NOPTS_VALUE\<close> (the sentinel \<^verbatim>\<open>INT64_MIN\<close> of a missing timestamp),
  \<^verbatim>\<open>AV_SAMPLE_FMT_NONE\<close> and \<^verbatim>\<open>SDL_MIX_MAXVOLUME\<close>.
\<close>

definition AV_TIME_BASE :: int where
  "AV_TIME_BASE = 1000000"

definition AV_NOPTS_VALUE :: int where
  "AV_NOPTS_VALUE = - (2 ^ 63)"

definition SDL_MIX_MAXVOLUME :: int where
  "SDL_MIX_MAXVOLUME = 128"

definition AV_SAMPLE_FMT_NONE :: int where
  "AV_SAMPLE_FMT_NONE = - 1"

text \<open>The media kind \<^verbatim>\<open>Type\<close> that parameterises stream source, demuxer and decoder.\<close>

datatype media_type = Video | Audio

section \<open>Frame queue of a stream source (stream\_source.cpp)\<close>

text \<open>
  A decoded frame as \<^verbatim>\<open>StreamSource::Frame\<close> holds it: the shared \<^verbatim>\<open>AVFrame\<close>
  (here only an identifier of the payload), the PTS and the duration in microseconds.
\<close>

record frame =
  payload :: nat
  pts :: int
  duration :: int

text \<open>\<^verbatim>\<open>MAX_QUEUE_SIZE(type == Type::Video ? 30 : 50)\<close>\<close>

definition MAX_QUEUE_SIZE :: "media_type \<Rightarrow> nat" where
  "MAX_QUEUE_SIZE ty = (if ty = Video then 30 else 50)"

text \<open>
  \<^verbatim>\<open>pushFrameToQueue\<close>: a null frame is ignored, a frame arriving at a full queue is
  dropped, otherwise the frame is appended.
\<close>

definition pushFrameToQueue :: "media_type \<Rightarrow> frame option \<Rightarrow> frame list \<Rightarrow> frame list" where
  "pushFrameToQueue ty fo q =
     (case fo of
        None \<Rightarrow> q
      | Some f \<Rightarrow> if length q \<ge> MAX_QUEUE_SIZE ty then q else q @ [f])"

text \<open>\<^verbatim>\<open>getNextFrame\<close>: \<^verbatim>\<open>nullptr\<close> on an empty queue, otherwise the front is removed and returned.\<close>

definition getNextFrame :: "frame list \<Rightarrow> frame option \<times> frame list" where
  "getNextFrame q = (case q of [] \<Rightarrow> (None, []) | f # rest \<Rightarrow> (Some f, rest))"

text \<open>\<^verbatim>\<open>clearFrameQueue\<close> pops until the queue is empty.\<close>

fun clearFrameQueue :: "frame list \<Rightarrow> frame list" where
  "clearFrameQueue [] = []"
| "clearFrameQueue (f # rest) = clearFrameQueue rest"

text \<open>
  The three functions above are the only code that changes \<^verbatim>\<open>frame_queue_\<close>. A history
  of the queue is a list of such calls, made by the decode worker, by seek and by the
  consumer.
\<close>

datatype queue_op = QPush "frame option" | QGet | QClear

fun queue_step :: "media_type \<Rightarrow> queue_op \<Rightarrow> frame list \<Rightarrow> frame list" where
  "queue_step ty (QPush fo) q = pushFrameToQueue ty fo q"
| "queue_step ty QGet q = snd (getNextFrame q)"
| "queue_step ty QClear q = clearFrameQueue q"

fun queue_run :: "media_type \<Rightarrow> queue_op list \<Rightarrow> frame list \<Rightarrow> frame list" where
  "queue_run ty [] q = q"
| "queue_run ty (x # xs) q = queue_run ty xs (queue_step ty x q)"

section \<open>Machine arithmetic\<close>

text \<open>
  \<^verbatim>\<open>size_t\<close> and \<^verbatim>\<open>uint64_t\<close> values are natural numbers below \<open>2\<^sup>6\<^sup>4\<close>; sums and
  differences wrap around. \<^verbatim>\<open>int64_t\<close> values are integers, wrapped into the two's
  complement range, and \<^verbatim>\<open>/\<close> truncates towards zero.
\<close>

type_synonym uint8 = "8 word"

definition two64 :: nat where
  "two64 = 2 ^ 64"

definition u64 :: "nat \<Rightarrow> nat" where
  "u64 n = n mod two64"

definition usub64 :: "nat \<Rightarrow> nat \<Rightarrow> nat" where
  "usub64 a b = (a + (two64 - b mod two64)) mod two64"



section \<open>Audio output (audio\_player.cpp)\<close>

text \<open>
  The fields of \<^verbatim>\<open>AudioPlayer\<close>. \<open>audio_dev\<close> is the SDL device id (0: no device)
  and \<open>dev_paused\<close> what \<^verbatim>\<open>SDL_PauseAudioDevice\<close> last set; a paused device does
  not call back. \<open>audio_reader_set\<close> and \<open>swr_ctx\<close> say that the pointer to the audio
  source and the resampler context are not null, \<open>producer_thread\<close> that the producer
  thread is joinable. \<open>sample_fmt\<close> is the \<^verbatim>\<open>AVSampleFormat\<close> as a number.
\<close>

record audio_player =
  pcm_ring_buf :: "uint8 list"
  pcm_ring_cap :: nat
  pcm_ring_read :: nat
  pcm_ring_write :: nat
  audio_dev :: nat
  dev_paused :: bool
  audio_reader_set :: bool
  swr_ctx :: bool
  producer_thread :: bool
  pulling :: bool
  paused :: bool
  stop_flag :: bool
  playback_finished :: bool
  sample_rate :: int
  channels :: int
  sample_fmt :: int
  volume :: int
  audio_clock :: int
  base_pts :: int
  consumed_samples :: int

text \<open>The state the constructor \<^verbatim>\<open>AudioPlayer::AudioPlayer()\<close> leaves.\<close>

definition AudioPlayer_new :: audio_player where
  "AudioPlayer_new =
     \<lparr>pcm_ring_buf = [], pcm_ring_cap = 0, pcm_ring_read = 0, pcm_ring_write = 0,
      audio_dev = 0, dev_paused = True, audio_reader_set = False, swr_ctx = False,
      producer_thread = False, pulling = False, paused = False, stop_flag = False,
      playback_finished = False, sample_rate = 44100, channels = 2,
      sample_fmt = AV_SAMPLE_FMT_NONE, volume = SDL_MIX_MAXVOLUME,
      audio_clock = 0, base_pts = 0, consumed_samples = 0\<rparr>"

text \<open>
  \<^verbatim>\<open>memcpy(&dst[off], src, n)\<close> with \<open>n = length src\<close>, byte by byte. On a
  well-formed ring the ring functions only copy within the buffer, \<open>off + n \<le> length dst\<close>
  (lemma \<open>ring_copies_in_range\<close>); a copy past the end has no defined behaviour in the
  source, and here it writes the bytes that fit and reads the bytes that exist.
\<close>

fun memcpy_to :: "'a list \<Rightarrow> nat \<Rightarrow> 'a list \<Rightarrow> 'a list" where
  "memcpy_to dst off [] = dst"
| "memcpy_to dst off (b # bs) = memcpy_to (dst[off := b]) (Suc off) bs"

text \<open>\<^verbatim>\<open>memcpy(out, &buf[off], n)\<close>: the \<open>n\<close> bytes read.\<close>

definition memcpy_from :: "'a list \<Rightarrow> nat \<Rightarrow> nat \<Rightarrow> 'a list" where
  "memcpy_from buf off n = take n (drop off buf)"

text \<open>
  \<^verbatim>\<open>pushPCMData(data, bytes)\<close>: \<open>None\<close> is the null pointer, \<open>Some d\<close> a buffer of
  \<open>bytes = length d\<close> bytes. The result is the number of bytes written and the new state.
\<close>

definition pushPCMData :: "uint8 list option \<Rightarrow> audio_player \<Rightarrow> nat \<times> audio_player" where
  "pushPCMData data ap =
     (case data of
        None \<Rightarrow> (0, ap)
      | Some d \<Rightarrow>
          let bytes = length d in
          if bytes = 0 \<or> pcm_ring_cap ap = 0 then (0, ap)
          else
            let free_space =
                  usub64 (pcm_ring_cap ap) (usub64 (pcm_ring_write ap) (pcm_ring_read ap))
            in if free_space = 0 then (0, ap)
               else
                 let bytes_to_write = min bytes free_space;
                     first_chunk =
                       min bytes_to_write
                         (pcm_ring_cap ap - pcm_ring_write ap mod pcm_ring_cap ap);
                     second_chunk = bytes_to_write - first_chunk;
                     buf1 = memcpy_to (pcm_ring_buf ap)
                              (pcm_ring_write ap mod pcm_ring_cap ap) (take first_chunk d);
                     buf2 = (if second_chunk > 0
                             then memcpy_to buf1 0 (take second_chunk (drop first_chunk d))
                             else buf1)
                 in (bytes_to_write,
                     ap\<lparr>pcm_ring_buf := buf2,
                        pcm_ring_write := u64 (pcm_ring_write ap + bytes_to_write)\<rparr>))"

text \<open>
  \<^verbatim>\<open>popPCMData(out, bytes)\<close>: \<open>out_ok\<close> says that \<open>out\<close> is not null. The result is the
  number of bytes read, the bytes copied to \<open>out\<close>, and the new state.
\<close>

definition popPCMData :: "bool \<Rightarrow> nat \<Rightarrow> audio_player \<Rightarrow> nat \<times> uint8 list \<times> audio_player" where
  "popPCMData out_ok bytes ap =
     (if \<not> out_ok \<or> bytes = 0 \<or> pcm_ring_cap ap = 0 then (0, [], ap)
      else
        let available_data = usub64 (pcm_ring_write ap) (pcm_ring_read ap)
        in if available_data = 0 then (0, [], ap)
           else
             let bytes_to_read = min bytes available_data;
                 first_chunk =
                   min bytes_to_read (pcm_ring_cap ap - pcm_ring_read ap mod pcm_ring_cap ap);
                 second_chunk = bytes_to_read - first_chunk;
                 out1 = memcpy_from (pcm_ring_buf ap)
                          (pcm_ring_read ap mod pcm_ring_cap ap) first_chunk;
                 out2 = (if second_chunk > 0
                         then out1 @ memcpy_from (pcm_ring_buf ap) 0 second_chunk
                         else out1)
             in (bytes_to_read, out2,
                 ap\<lparr>pcm_ring_read := u64 (pcm_ring_read ap + bytes_to_read)\<rparr>))"

text \<open>Occupancy and free space of the ring, as both functions compute them.\<close>

definition occupancy :: "audio_player \<Rightarrow> nat" where
  "occupancy ap = usub64 (pcm_ring_write ap) (pcm_ring_read ap)"

definition free_space :: "audio_player \<Rightarrow> nat" where
  "free_space ap = usub64 (pcm_ring_cap ap) (occupancy ap)"

text \<open>
  A well-formed ring: capacity and positions are 64-bit values, the vector has
  \<open>pcm_ring_cap\<close> bytes, and the occupancy is at most the capacity.
\<close>

definition ring_ok :: "audio_player \<Rightarrow> bool" where
  "ring_ok ap \<longleftrightarrow>
     pcm_ring_cap ap < two64 \<and> pcm_ring_read ap < two64 \<and> pcm_ring_write ap < two64
     \<and> length (pcm_ring_buf ap) = pcm_ring_cap ap
     \<and> occupancy ap \<le> pcm_ring_cap ap"

text \<open>
  \<^verbatim>\<open>resetClock(pts)\<close>: pause the device, reset the ring positions and zero the storage,
  reset the clock triple to the target, clear \<^verbatim>\<open>playback_finished_\<close>, resume the device.
\<close>

definition resetClock :: "int \<Rightarrow> audio_player \<Rightarrow> audio_player" where
  "resetClock t ap =
     (let ap1 = (if audio_dev ap \<noteq> 0 then ap\<lparr>dev_paused := True\<rparr> else ap);
          ap2 = ap1\<lparr>pcm_ring_read := 0, pcm_ring_write := 0,
                    pcm_ring_buf := (if pcm_ring_buf ap1 \<noteq> []
                                     then replicate (length (pcm_ring_buf ap1)) 0
                                     else pcm_ring_buf ap1)\<rparr>;
          ap3 = ap2\<lparr>consumed_samples := 0, base_pts := t, audio_clock := t,
                    playback_finished := False\<rparr>
      in if audio_dev ap3 \<noteq> 0 then ap3\<lparr>dev_paused := False\<rparr> else ap3)"





text \<open>
  Lines 213 to 221 of \<^verbatim>\<open>producerThreadLoop\<close>, for a frame with PTS \<open>frame_pts\<close> whose
  conversion gave the buffer \<open>pcm_buffer\<close>: an empty buffer skips the frame; otherwise
  the base PTS is stored when it holds \<^verbatim>\<open>AV_NOPTS_VALUE\<close> and the frame has a PTS.
  \<open>to_us\<close> is \<^verbatim>\<open>av_rescale_q(\<cdot>, getTimeBase(), AV_TIME_BASE_Q)\<close> of FFmpeg for the time base
  of the audio stream.
\<close>

definition producer_set_base :: "(int \<Rightarrow> int) \<Rightarrow> int \<Rightarrow> uint8 list \<Rightarrow> audio_player \<Rightarrow> audio_player" where
  "producer_set_base to_us frame_pts pcm_buffer ap =
     (if pcm_buffer = [] then ap
      else if base_pts ap = AV_NOPTS_VALUE \<and> frame_pts \<noteq> AV_NOPTS_VALUE
           then ap\<lparr>base_pts := to_us frame_pts\<rparr>
           else ap)"

text \<open>\<^verbatim>\<open>pause\<close> and \<^verbatim>\<open>resume\<close> of the audio output.\<close>

definition ap_pause :: "audio_player \<Rightarrow> audio_player" where
  "ap_pause ap =
     (let ap1 = ap\<lparr>paused := True\<rparr>
      in if audio_dev ap1 \<noteq> 0 then ap1\<lparr>dev_paused := True\<rparr> else ap1)"

definition ap_resume :: "audio_player \<Rightarrow> audio_player" where
  "ap_resume ap =
     (let ap1 = ap\<lparr>paused := False\<rparr>
      in if audio_dev ap1 \<noteq> 0 then ap1\<lparr>dev_paused := False\<rparr> else ap1)"


text \<open>
  \<^verbatim>\<open>stop\<close>: the producer is joined, the device closed, the resampler released, the ring
  emptied and every clock field zeroed. \<^verbatim>\<open>clear\<close>: the ring and the clock only.
\<close>

definition ap_stop :: "audio_player \<Rightarrow> audio_player" where
  "ap_stop ap =
     ap\<lparr>stop_flag := False, paused := False, producer_thread := False,
        audio_dev := 0, dev_paused := True, swr_ctx := False,
        pcm_ring_buf := [], pcm_ring_cap := 0, pcm_ring_read := 0, pcm_ring_write := 0,
        audio_reader_set := False, base_pts := 0, consumed_samples := 0, audio_clock := 0,
        pulling := False, playback_finished := False\<rparr>"

definition ap_clear :: "audio_player \<Rightarrow> audio_player" where
  "ap_clear ap =
     ap\<lparr>pcm_ring_buf := [], pcm_ring_cap := 0, pcm_ring_read := 0, pcm_ring_write := 0,
        base_pts := 0, consumed_samples := 0, audio_clock := 0\<rparr>"

subsection \<open>The ring as a byte queue\<close>

text \<open>
  The bytes a ring holds, oldest first: position \<open>read + i\<close> for each \<open>i\<close> below the
  occupancy, taken modulo the capacity.
\<close>

definition ring_contents :: "audio_player \<Rightarrow> uint8 list" where
  "ring_contents ap =
     map (\<lambda>i. pcm_ring_buf ap ! ((pcm_ring_read ap + i) mod pcm_ring_cap ap))
       [0..<occupancy ap]"

text \<open>A well-formed ring whose positions have not wrapped around \<open>2\<^sup>6\<^sup>4\<close>.\<close>

definition ring_lin :: "audio_player \<Rightarrow> bool" where
  "ring_lin ap \<longleftrightarrow> ring_ok ap \<and> pcm_ring_read ap \<le> pcm_ring_write ap"

text \<open>
  A history of the ring is a list of calls, \<^verbatim>\<open>pushPCMData\<close> by the producer and
  \<^verbatim>\<open>popPCMData\<close> by the device callback, both under \<^verbatim>\<open>pcm_mutex_\<close>. Running it
  gives what each call returned.
\<close>

datatype ring_op = RPush "uint8 list" | RPop nat

datatype ring_result = Pushed nat | Popped nat "uint8 list"

fun ring_run :: "ring_op list \<Rightarrow> audio_player \<Rightarrow> ring_result list" where
  "ring_run [] ap = []"
| "ring_run (RPush d # ops) ap =
     (case pushPCMData (Some d) ap of (k, ap') \<Rightarrow> Pushed k # ring_run ops ap')"
| "ring_run (RPop n # ops) ap =
     (case popPCMData True n ap of (k, bytes, ap') \<Rightarrow> Popped k bytes # ring_run ops ap')"

text \<open>
  The specification's reading of the ring: an unbounded queue of bytes, restricted to
  the capacity \<open>c\<close>. A push accepts as many bytes as fit, a pop returns as many as are
  there.
\<close>

fun byte_queue_run :: "nat \<Rightarrow> ring_op list \<Rightarrow> uint8 list \<Rightarrow> ring_result list" where
  "byte_queue_run c [] q = []"
| "byte_queue_run c (RPush d # ops) q =
     (let k = min (length d) (c - length q)
      in Pushed k # byte_queue_run c ops (q @ take k d))"
| "byte_queue_run c (RPop n # ops) q =
     (let k = min n (length q)
      in Popped k (take k q) # byte_queue_run c ops (drop k q))"

text \<open>The bytes that the pushes of a history accepted, and the bytes that its pops returned.\<close>

fun accepted_bytes :: "ring_op list \<Rightarrow> ring_result list \<Rightarrow> uint8 list" where
  "accepted_bytes (RPush d # ops) (Pushed k # rs) = take k d @ accepted_bytes ops rs"
| "accepted_bytes (x # ops) (r # rs) = accepted_bytes ops rs"
| "accepted_bytes ops rs = []"

fun popped_bytes :: "ring_result list \<Rightarrow> uint8 list" where
  "popped_bytes [] = []"
| "popped_bytes (Popped k bytes # rs) = bytes @ popped_bytes rs"
| "popped_bytes (Pushed k # rs) = popped_bytes rs"

text \<open>The number of bytes that the pushes of a history offer.\<close>

fun offered_total :: "ring_op list \<Rightarrow> nat" where
  "offered_total [] = 0"
| "offered_total (RPush d # ops) = length d + offered_total ops"
| "offered_total (RPop n # ops) = offered_total ops"

text \<open>Two small rings for concrete runs: one holding two bytes across the wrap, one empty.\<close>

definition demo_ring :: audio_player where
  "demo_ring = AudioPlayer_new\<lparr>pcm_ring_buf := [1, 2, 3, 4], pcm_ring_cap := 4,
     pcm_ring_read := 3, pcm_ring_write := 5\<rparr>"

definition empty_ring4 :: audio_player where
  "empty_ring4 = AudioPlayer_new\<lparr>pcm_ring_buf := [0, 0, 0, 0], pcm_ring_cap := 4\<rparr>"

text \<open>
  An empty ring of three bytes whose positions stand one below \<open>2\<^sup>6\<^sup>4\<close>, where the next
  push wraps the write position around.
\<close>

definition wrapping_ring :: audio_player where
  "wrapping_ring = AudioPlayer_new\<lparr>pcm_ring_buf := [0, 0, 0], pcm_ring_cap := 3,
     pcm_ring_read := 18446744073709551615, pcm_ring_write := 18446744073709551615\<rparr>"


section \<open>Volume (audio\_player.cpp)\<close>

text \<open>
  \<^verbatim>\<open>std::round\<close> rounds to the nearest integer, halfway cases away from zero. The
  argument of \<^verbatim>\<open>setVolume\<close> is a \<^verbatim>\<open>double\<close>; it is modelled by a real number, and
  NaN, which is no real number, by \<open>None\<close>. For a double in \<open>[0, 1]\<close> the model is exact:
  multiplying by \<open>128 = 2\<^sup>7\<close> and dividing an integer of at most eight bits by it are
  both exact in binary floating point.
\<close>

definition std_round :: "real \<Rightarrow> int" where
  "std_round x = (if 0 \<le> x then \<lfloor>x + 1 / 2\<rfloor> else \<lceil>x - 1 / 2\<rceil>)"

definition setVolume :: "real option \<Rightarrow> int" where
  "setVolume arg =
     (let norm = (case arg of None \<Rightarrow> 1 | Some x \<Rightarrow> x);
          norm = (if norm < 0 then 0 else norm);
          norm = (if norm > 1 then 1 else norm)
      in std_round (norm * real_of_int SDL_MIX_MAXVOLUME))"

definition getVolume :: "int \<Rightarrow> real" where
  "getVolume v = real_of_int v / real_of_int SDL_MIX_MAXVOLUME"


section \<open>Histories of the audio output\<close>








section \<open>Sync bands of the presenter (player.cpp)\<close>

text \<open>
  The three thresholds are computed from \<^verbatim>\<open>AV_TIME_BASE\<close> and truncated to
  \<^verbatim>\<open>int64_t\<close>: they are numbers of microseconds.
\<close>

definition AV_SYNC_THRESHOLD_MIN :: int where
  "AV_SYNC_THRESHOLD_MIN = \<lfloor>(4 / 100 :: real) * real_of_int AV_TIME_BASE\<rfloor>"

definition AV_SYNC_THRESHOLD_MAX :: int where
  "AV_SYNC_THRESHOLD_MAX = \<lfloor>(1 / 10 :: real) * real_of_int AV_TIME_BASE\<rfloor>"

definition AV_SYNC_FRAMEDUP_THRESHOLD :: int where
  "AV_SYNC_FRAMEDUP_THRESHOLD = \<lfloor>(2 / 10 :: real) * real_of_int AV_TIME_BASE\<rfloor>"

text \<open>
  Lines 338 to 361 of \<^verbatim>\<open>Player::renderLoop\<close>: \<open>diff\<close> is the difference of video PTS
  and audio clock in seconds, \<open>delay\<close> the nominal frame delay in seconds, and the
  result is the delay before the low-pass filter. The doubles are modelled by reals.
\<close>

definition sync_diff :: "int \<Rightarrow> int \<Rightarrow> real" where
  "sync_diff vpts aclock =
     real_of_int (vpts - aclock) / real_of_int AV_TIME_BASE"

definition sync_delay :: "int \<Rightarrow> int \<Rightarrow> real \<Rightarrow> real" where
  "sync_delay vpts aclock delay =
     (let diff = sync_diff vpts aclock
      in if \<bar>diff\<bar> < real_of_int AV_SYNC_THRESHOLD_MIN then delay
         else if \<bar>diff\<bar> > real_of_int AV_SYNC_THRESHOLD_MAX then max 0 (delay + diff)
         else if diff > real_of_int AV_SYNC_FRAMEDUP_THRESHOLD then 0
         else delay)"

text \<open>The bands as the specification words them, with the thresholds in seconds.\<close>

definition spec_sync_delay :: "int \<Rightarrow> int \<Rightarrow> real \<Rightarrow> real" where
  "spec_sync_delay vpts aclock delay =
     (let diff = sync_diff vpts aclock
      in if \<bar>diff\<bar> < 4 / 100 then delay
         else if \<bar>diff\<bar> > 1 / 10 then max 0 (delay + diff)
         else if diff > 2 / 10 then 0
         else delay)"


section \<open>Container and codec (FFmpeg), as the player sees them\<close>

text \<open>
  The demuxer and the decoder wrap FFmpeg. What FFmpeg returns is data of the model: a
  frame as \<^verbatim>\<open>avcodec_receive_frame\<close> yields it, a packet together with what the codec
  makes of it, a stream with its parameters, and a format context with the packets that
  \<^verbatim>\<open>av_read_frame\<close> will deliver from the current position.
\<close>

datatype codec_type = AVMEDIA_TYPE_VIDEO | AVMEDIA_TYPE_AUDIO | AVMEDIA_TYPE_OTHER

text \<open>
  An \<^verbatim>\<open>AVFrame\<close>: PTS and duration in units of the stream's time base, the number of
  samples, an identifier of the payload, and whether \<^verbatim>\<open>av_frame_clone\<close> will succeed.
\<close>

record av_frame =
  av_pts :: int
  av_duration :: int
  nb_samples :: int
  av_payload :: nat
  clone_ok :: bool

text \<open>
  What \<^verbatim>\<open>Decoder::receiveFrame\<close> can get from the codec: a frame, or an error (or a
  failed allocation); with nothing left the codec answers \<^verbatim>\<open>EAGAIN\<close> or EOF.
\<close>

datatype recv_event = RecvFrame av_frame | RecvError

text \<open>
  An \<^verbatim>\<open>AVPacket\<close>, with the codec's answer to it: the result of
  \<^verbatim>\<open>avcodec_send_packet\<close> and the frames that become available once it is sent.
\<close>

record av_packet =
  pkt_stream_index :: int
  pkt_size :: int
  pkt_pts :: int
  send_result :: int
  decoded :: "recv_event list"

text \<open>
  What \<^verbatim>\<open>av_read_frame\<close> can deliver: a packet, or an error other than EOF (a failed
  \<^verbatim>\<open>av_packet_alloc\<close> has the same effect in \<^verbatim>\<open>readNextPacket\<close>). At the end of the
  list it answers \<^verbatim>\<open>AVERROR_EOF\<close>.
\<close>

datatype read_event = ReadPacket av_packet | ReadError

text \<open>
  An \<^verbatim>\<open>AVStream\<close>. \<open>rescale_to_us\<close> is \<^verbatim>\<open>av_rescale_q(\<cdot>, time_base, AV_TIME_BASE_Q)\<close> and
  \<open>rescale_from_us\<close> the conversion back; \<open>codec_ok\<close> says that FFmpeg finds, allocates, opens
  and configures a codec for the stream; the two frame rates are numerator and
  denominator.
\<close>

record av_stream =
  stream_codec_type :: codec_type
  rescale_to_us :: "int \<Rightarrow> int"
  rescale_from_us :: "int \<Rightarrow> int"
  stream_duration :: int
  codec_ok :: bool
  par_sample_rate :: int
  par_channels :: int
  par_format :: int
  par_width :: int
  par_height :: int
  avg_frame_rate :: "int \<times> int"
  r_frame_rate :: "int \<times> int"

text \<open>
  An \<^verbatim>\<open>AVFormatContext\<close>: the streams, the duration, the packets ahead, and what
  \<^verbatim>\<open>av_seek_frame(ctx, stream_index, target, flags)\<close> does: \<open>None\<close> when it fails,
  otherwise the packets ahead of the new position.
\<close>

record format_ctx =
  streams :: "av_stream list"
  fmt_duration :: int
  pending :: "read_event list"
  seek_frame :: "int \<Rightarrow> int \<Rightarrow> read_event list option"

text \<open>
  A file on disk: whether \<^verbatim>\<open>avformat_open_input\<close> and
  \<^verbatim>\<open>avformat_find_stream_info\<close> succeed on it, and the context they give.
\<close>

record media_file =
  open_input_ok :: bool
  stream_info_ok :: bool
  file_ctx :: format_ctx

section \<open>Demuxer (demuxer.cpp)\<close>

record demuxer =
  dmx_type :: media_type
  dmx_ctx :: "format_ctx option"
  stream_index :: int
  dmx_eof :: bool

definition Demuxer_new :: "media_type \<Rightarrow> demuxer" where
  "Demuxer_new ty = \<lparr>dmx_type = ty, dmx_ctx = None, stream_index = - 1, dmx_eof = False\<rparr>"

definition Demuxer_close :: "demuxer \<Rightarrow> demuxer" where
  "Demuxer_close d = d\<lparr>dmx_ctx := None, stream_index := - 1, dmx_eof := False\<rparr>"

text \<open>The loop of \<^verbatim>\<open>Demuxer::open\<close> over the streams, from index \<open>i\<close>: the first match.\<close>

fun find_stream :: "media_type \<Rightarrow> av_stream list \<Rightarrow> int \<Rightarrow> int option" where
  "find_stream ty [] i = None"
| "find_stream ty (s # ss) i =
     (if (ty = Video \<and> stream_codec_type s = AVMEDIA_TYPE_VIDEO)
         \<or> (ty = Audio \<and> stream_codec_type s = AVMEDIA_TYPE_AUDIO)
      then Some i
      else find_stream ty ss (i + 1))"

definition Demuxer_open :: "string \<Rightarrow> media_file \<Rightarrow> demuxer \<Rightarrow> bool \<times> demuxer" where
  "Demuxer_open filename file d =
     (if filename = [] then (False, d)
      else if \<not> open_input_ok file then (False, d)
      else
        let d1 = d\<lparr>dmx_ctx := Some (file_ctx file)\<rparr> in
        if \<not> stream_info_ok file then (False, Demuxer_close d1)
        else
          let d2 = (case find_stream (dmx_type d1) (streams (file_ctx file)) 0 of
                      None \<Rightarrow> d1
                    | Some i \<Rightarrow> d1\<lparr>stream_index := i\<rparr>)
          in if stream_index d2 < 0 then (False, Demuxer_close d2)
             else (True, d2\<lparr>dmx_eof := False\<rparr>))"

text \<open>\<^verbatim>\<open>getAVStream\<close>: the stream found by \<^verbatim>\<open>open\<close>, null before and after.\<close>

definition getAVStream :: "demuxer \<Rightarrow> av_stream option" where
  "getAVStream d =
     (case dmx_ctx d of
        None \<Rightarrow> None
      | Some c \<Rightarrow>
          if 0 \<le> stream_index d \<and> nat (stream_index d) < length (streams c)
          then Some (streams c ! nat (stream_index d))
          else None)"






section \<open>Decoder (decoder.cpp)\<close>

text \<open>
  \<open>codec_ctx\<close> says that the codec context exists (\<^verbatim>\<open>isOpen\<close>); \<open>available\<close> are the
  frames the codec holds ready; the other fields are \<^verbatim>\<open>Decoder::Config\<close>.
\<close>

record decoder =
  dec_type :: media_type
  codec_ctx :: bool
  available :: "recv_event list"
  cfg_sample_rate :: int
  cfg_channels :: int
  cfg_sample_format :: int
  cfg_width :: int
  cfg_height :: int

definition Decoder_new :: "media_type \<Rightarrow> decoder" where
  "Decoder_new ty =
     \<lparr>dec_type = ty, codec_ctx = False, available = [], cfg_sample_rate = 0,
      cfg_channels = 0, cfg_sample_format = AV_SAMPLE_FMT_NONE, cfg_width = 0, cfg_height = 0\<rparr>"

definition Decoder_close :: "decoder \<Rightarrow> decoder" where
  "Decoder_close dec = dec\<lparr>codec_ctx := False, available := []\<rparr>"

text \<open>
  \<^verbatim>\<open>Decoder::open\<close> with \<^verbatim>\<open>initializeCodec\<close> and \<^verbatim>\<open>configureCodec\<close>: a null stream
  or a stream of the other kind fails; otherwise FFmpeg decides, and on success the
  configuration is copied from the stream's parameters.
\<close>

definition Decoder_open :: "av_stream option \<Rightarrow> decoder \<Rightarrow> bool \<times> decoder" where
  "Decoder_open so dec =
     (case so of
        None \<Rightarrow> (False, dec)
      | Some s \<Rightarrow>
          let is_video = (stream_codec_type s = AVMEDIA_TYPE_VIDEO);
              is_audio = (stream_codec_type s = AVMEDIA_TYPE_AUDIO)
          in if (dec_type dec = Video \<and> \<not> is_video) \<or> (dec_type dec = Audio \<and> \<not> is_audio)
             then (False, dec)
             else if \<not> codec_ok s then (False, dec\<lparr>codec_ctx := False\<rparr>)
             else if dec_type dec = Audio
               then (True, dec\<lparr>codec_ctx := True, cfg_sample_rate := par_sample_rate s,
                               cfg_channels := par_channels s,
                               cfg_sample_format := par_format s\<rparr>)
               else (True, dec\<lparr>codec_ctx := True, cfg_width := par_width s,
                               cfg_height := par_height s\<rparr>))"






section \<open>Stream source (stream\_source.cpp)\<close>

datatype source_state = SStopped | SPaused | SRunning

text \<open>
  The fields of \<^verbatim>\<open>StreamSource\<close>. \<open>decoder\<close> and \<open>demuxer\<close> are the two smart
  pointers (\<open>None\<close>: null), \<open>decoding_thread\<close> says that the decode thread is joinable.
\<close>

record stream_source =
  src_type :: media_type
  fake_pts :: int
  src_width :: int
  src_height :: int
  frame_rate :: real
  src_sample_rate :: int
  src_channels :: int
  src_sample_fmt :: int
  decoder :: "decoder option"
  demuxer :: "demuxer option"
  decoding_thread :: bool
  src_state :: source_state
  src_eof :: bool
  frame_queue :: "frame list"

definition StreamSource_new :: "media_type \<Rightarrow> stream_source" where
  "StreamSource_new ty =
     \<lparr>src_type = ty, fake_pts = 0, src_width = 0, src_height = 0, frame_rate = 0,
      src_sample_rate = 0, src_channels = 0, src_sample_fmt = AV_SAMPLE_FMT_NONE,
      decoder = None, demuxer = None, decoding_thread = False, src_state = SStopped,
      src_eof = False, frame_queue = []\<rparr>"




text \<open>
  \<^verbatim>\<open>initializeDecoder\<close>: open the decoder on the stream and copy the stream's properties.
  The frame rate is the average frame rate if it has numerator and denominator, else
  the real frame rate, else 0.
\<close>

definition initializeDecoder :: "av_stream option \<Rightarrow> stream_source \<Rightarrow> bool \<times> stream_source" where
  "initializeDecoder so s =
     (case so of
        None \<Rightarrow> (False, s)
      | Some st \<Rightarrow>
          (case decoder s of
             None \<Rightarrow> (False, s)
           | Some dec \<Rightarrow>
               (case Decoder_open (Some st) dec of
                  (ok, dec1) \<Rightarrow>
                    if \<not> ok then (False, s\<lparr>decoder := Some dec1\<rparr>)
                    else if src_type s = Video then
                      (True, s\<lparr>decoder := Some dec1, src_width := cfg_width dec1,
                              src_height := cfg_height dec1,
                              frame_rate :=
                                (if snd (avg_frame_rate st) \<noteq> 0 \<and> fst (avg_frame_rate st) \<noteq> 0
                                 then real_of_int (fst (avg_frame_rate st))
                                      / real_of_int (snd (avg_frame_rate st))
                                 else if snd (r_frame_rate st) \<noteq> 0 \<and> fst (r_frame_rate st) \<noteq> 0
                                 then real_of_int (fst (r_frame_rate st))
                                      / real_of_int (snd (r_frame_rate st))
                                 else 0)\<rparr>)
                    else
                      (True, s\<lparr>decoder := Some dec1, src_sample_rate := cfg_sample_rate dec1,
                              src_channels := cfg_channels dec1,
                              src_sample_fmt := cfg_sample_format dec1\<rparr>))))"

text \<open>
  \<^verbatim>\<open>StreamSource::open\<close>: a fresh demuxer is opened on the file; it must have a stream
  of the source's kind; a fresh decoder is initialised from that stream.
\<close>

definition StreamSource_open :: "string \<Rightarrow> media_file \<Rightarrow> stream_source \<Rightarrow> bool \<times> stream_source" where
  "StreamSource_open filename file s =
     (case Demuxer_open filename file (Demuxer_new (src_type s)) of
        (ok, d) \<Rightarrow>
          if \<not> ok then (False, s\<lparr>demuxer := Some d\<rparr>)
          else
            (case getAVStream d of
               None \<Rightarrow> (False, s\<lparr>demuxer := Some (Demuxer_close d)\<rparr>)
             | Some st \<Rightarrow>
                 (case initializeDecoder (Some st)
                         (s\<lparr>demuxer := Some d, decoder := Some (Decoder_new (src_type s))\<rparr>) of
                    (ok2, s1) \<Rightarrow>
                      if \<not> ok2
                      then (False, s1\<lparr>demuxer := Some (Demuxer_close d),
                                      decoder := map_option Decoder_close (decoder s1)\<rparr>)
                      else (True, s1\<lparr>src_state := SStopped, src_eof := False\<rparr>))))"

text \<open>
  The four controls of the decode worker and \<^verbatim>\<open>close\<close>. \<^verbatim>\<open>startDecoding\<close> assigns a
  new thread to \<^verbatim>\<open>decoding_thread_\<close>; where the old one is still joinable (a start
  after a stop without \<^verbatim>\<open>close\<close>) the source terminates the program, which the model
  does not show: no theorem below starts a source twice.
\<close>

definition startDecoding :: "stream_source \<Rightarrow> stream_source" where
  "startDecoding s =
     (if src_state s = SRunning then s
      else
        let s1 = (if src_state s = SStopped
                  then s\<lparr>frame_queue := clearFrameQueue (frame_queue s), src_eof := False\<rparr>
                  else s)
        in s1\<lparr>src_state := SRunning, decoding_thread := True\<rparr>)"

definition pauseDecoding :: "stream_source \<Rightarrow> stream_source" where
  "pauseDecoding s = (if src_state s = SRunning then s\<lparr>src_state := SPaused\<rparr> else s)"

definition resumeDecoding :: "stream_source \<Rightarrow> stream_source" where
  "resumeDecoding s = (if src_state s = SPaused then s\<lparr>src_state := SRunning\<rparr> else s)"

definition stopDecoding :: "stream_source \<Rightarrow> stream_source" where
  "stopDecoding s = s\<lparr>src_state := SStopped\<rparr>"

definition StreamSource_close :: "stream_source \<Rightarrow> stream_source" where
  "StreamSource_close s =
     (let s1 = stopDecoding s;
          s2 = s1\<lparr>decoding_thread := False\<rparr>;
          s3 = s2\<lparr>frame_queue := clearFrameQueue (frame_queue s2)\<rparr>;
          s4 = (case decoder s3 of
                  None \<Rightarrow> s3
                | Some dec \<Rightarrow> if codec_ctx dec then s3\<lparr>decoder := None\<rparr> else s3);
          s5 = s4\<lparr>demuxer := None\<rparr>
      in s5\<lparr>src_state := SStopped, src_eof := False\<rparr>)"

subsection \<open>Seek\<close>










section \<open>Renderer (gl\_renderer.cpp), as far as the controller drives it\<close>

text \<open>
  \<open>rnd_window\<close> and \<open>rnd_thread\<close> say that the GLFW window exists and that the render
  thread is joinable; \<open>rnd_frames\<close> are the payloads waiting to be drawn.
\<close>

record gl_renderer =
  rnd_running :: bool
  rnd_window :: bool
  rnd_thread :: bool
  rnd_width :: int
  rnd_height :: int
  rnd_frames :: "nat list"
  max_queue_size :: nat

definition GLRenderer_new :: gl_renderer where
  "GLRenderer_new =
     \<lparr>rnd_running = False, rnd_window = False, rnd_thread = False, rnd_width = 0,
      rnd_height = 0, rnd_frames = [], max_queue_size = 5\<rparr>"

text \<open>
  What the libraries answer when the player asks: SDL (audio subsystem, device,
  whether the device honours the requested spec), the resampler, GLFW.
\<close>

record sys_env =
  sdl_was_init :: bool
  sdl_init_ok :: bool
  sdl_device :: nat
  sdl_have_matches :: bool
  swr_alloc_ok :: bool
  swr_init_ok :: bool
  glfw_init_ok :: bool
  glfw_window_ok :: bool

definition GLRenderer_start :: "sys_env \<Rightarrow> int \<Rightarrow> int \<Rightarrow> gl_renderer \<Rightarrow> bool \<times> gl_renderer" where
  "GLRenderer_start env w h r =
     (if rnd_running r then (False, r)
      else if \<not> glfw_init_ok env then (False, r)
      else
        let r1 = r\<lparr>rnd_window := glfw_window_ok env, rnd_width := w, rnd_height := h\<rparr>
        in if \<not> rnd_window r1 then (False, r1)
           else (True, r1\<lparr>rnd_running := True, rnd_thread := True\<rparr>))"

definition GLRenderer_stop :: "gl_renderer \<Rightarrow> gl_renderer" where
  "GLRenderer_stop r =
     (if \<not> rnd_running r then r
      else r\<lparr>rnd_running := False, rnd_thread := False, rnd_window := False\<rparr>)"

definition clearFrames :: "gl_renderer \<Rightarrow> gl_renderer" where
  "clearFrames r = r\<lparr>rnd_frames := []\<rparr>"

section \<open>Audio output: initialisation (audio\_player.cpp)\<close>

definition wrap32 :: "int \<Rightarrow> int" where
  "wrap32 x = (x + 2 ^ 31) mod 2 ^ 32 - 2 ^ 31"

text \<open>
  \<^verbatim>\<open>AudioPlayer::initialize\<close>: the parameters of the audio source are checked, the device
  is opened and must honour the request, the resampler is set up, the ring gets two
  seconds of storage (at least 4096 bytes), the producer thread and the device start.
  A second call while the producer thread is still joinable terminates the program in
  the source, which the model does not show: no theorem below initialises twice.
\<close>

definition AudioPlayer_initialize ::
  "sys_env \<Rightarrow> stream_source option \<Rightarrow> audio_player \<Rightarrow> bool \<times> audio_player" where
  "AudioPlayer_initialize env reader ap =
     (case reader of
        None \<Rightarrow> (False, ap)
      | Some src \<Rightarrow>
          let ap1 = ap\<lparr>audio_reader_set := True, sample_rate := src_sample_rate src,
                        channels := src_channels src, sample_fmt := src_sample_fmt src\<rparr>
          in if sample_rate ap1 \<le> 0 \<or> channels ap1 \<le> 0 \<or> sample_fmt ap1 = AV_SAMPLE_FMT_NONE
             then (False, ap1)
             else if \<not> sdl_was_init env \<and> \<not> sdl_init_ok env then (False, ap1)
             else if sdl_device env = 0 then (False, ap1\<lparr>audio_dev := 0\<rparr>)
             else if \<not> sdl_have_matches env then (False, ap1\<lparr>audio_dev := 0\<rparr>)
             else if \<not> swr_alloc_ok env then (False, ap1\<lparr>audio_dev := 0\<rparr>)
             else if \<not> swr_init_ok env then (False, ap1\<lparr>audio_dev := 0\<rparr>)
             else
               let bytes0 = wrap32 (wrap32 (wrap32 (sample_rate ap1 * channels ap1) * 2) * 2);
                   buffer_bytes = (if bytes0 < 4096 then 4096 else bytes0);
                   cap = nat buffer_bytes
               in (True,
                   ap1\<lparr>audio_dev := sdl_device env, swr_ctx := True, pcm_ring_cap := cap,
                       pcm_ring_buf := take cap (pcm_ring_buf ap1)
                                       @ replicate (cap - length (pcm_ring_buf ap1)) 0,
                       pcm_ring_read := 0, pcm_ring_write := 0, pulling := True,
                       producer_thread := True, dev_paused := False\<rparr>))"

section \<open>Playback controller (player.cpp)\<close>

datatype player_state = PStopped | PPlaying | PPaused | PError

text \<open>
  The fields of \<^verbatim>\<open>Player\<close>. The four components are created by the constructor and
  their pointers never change, so they are held by value. \<open>render_thread\<close> says that
  the presenter thread is joinable.
\<close>

record player =
  state :: player_state
  video_reader :: stream_source
  audio_reader :: stream_source
  renderer :: gl_renderer
  audio_out :: audio_player
  render_thread :: bool
  is_running :: bool
  last_timestamp :: int
  last_delay :: real

definition Player_new :: player where
  "Player_new =
     \<lparr>state = PStopped, video_reader = StreamSource_new Video,
      audio_reader = StreamSource_new Audio, renderer = GLRenderer_new,
      audio_out = AudioPlayer_new, render_thread = False, is_running = False,
      last_timestamp = 0, last_delay = 0\<rparr>"

text \<open>
  \<^verbatim>\<open>Player::open\<close>. Both sources are opened on the same file; a failure of either
  returns false, and so does a failure of the audio output or of the renderer.
\<close>

definition Player_open :: "string \<Rightarrow> media_file \<Rightarrow> sys_env \<Rightarrow> player \<Rightarrow> bool \<times> player" where
  "Player_open filename file env p =
     (if state p \<noteq> PStopped then (False, p)
      else
        (case StreamSource_open filename file (video_reader p) of
           (ok_v, vr) \<Rightarrow>
             if \<not> ok_v then (False, p\<lparr>video_reader := StreamSource_close vr\<rparr>)
             else
               (case StreamSource_open filename file (audio_reader p) of
                  (ok_a, ar) \<Rightarrow>
                    if \<not> ok_a
                    then (False, p\<lparr>video_reader := StreamSource_close vr, audio_reader := ar\<rparr>)
                    else
                      (case AudioPlayer_initialize env (Some ar) (audio_out p) of
                         (ok_i, ap) \<Rightarrow>
                           if \<not> ok_i
                           then (False, p\<lparr>video_reader := StreamSource_close vr,
                                           audio_reader := StreamSource_close ar,
                                           audio_out := ap\<rparr>)
                           else
                             (case GLRenderer_start env (src_width vr) (src_height vr)
                                     (renderer p) of
                                (ok_r, r) \<Rightarrow>
                                  if \<not> ok_r
                                  then (False, p\<lparr>video_reader := StreamSource_close vr,
                                                  audio_reader := StreamSource_close ar,
                                                  audio_out := ap, renderer := r,
                                                  state := PError\<rparr>)
                                  else (True, p\<lparr>video_reader := vr, audio_reader := ar,
                                                 audio_out := ap, renderer := r,
                                                 is_running := True, render_thread := True,
                                                 state := PStopped\<rparr>))))))"

text \<open>
  \<^verbatim>\<open>Player::close\<close>: nothing in state Stopped; otherwise the presenter thread is told to
  stop and joined, and every component is stopped and released.
\<close>

definition Player_close :: "player \<Rightarrow> player" where
  "Player_close p =
     (if state p = PStopped then p
      else
        p\<lparr>is_running := False, render_thread := False,
           audio_out := ap_clear (ap_stop (audio_out p)),
           renderer := clearFrames (GLRenderer_stop (renderer p)),
           video_reader := StreamSource_close (stopDecoding (video_reader p)),
           audio_reader := StreamSource_close (stopDecoding (audio_reader p)),
           state := PStopped\<rparr>)"

text \<open>\<^verbatim>\<open>resume\<close>, \<^verbatim>\<open>play\<close>, \<^verbatim>\<open>pause\<close> and \<^verbatim>\<open>stop\<close> of the controller.\<close>

definition Player_resume :: "player \<Rightarrow> player" where
  "Player_resume p =
     (if state p \<noteq> PPaused then p
      else
        p\<lparr>audio_reader := resumeDecoding (audio_reader p),
           video_reader := resumeDecoding (video_reader p),
           audio_out := (if paused (audio_out p) then ap_resume (audio_out p) else audio_out p),
           state := PPlaying\<rparr>)"

definition Player_play :: "player \<Rightarrow> bool \<times> player" where
  "Player_play p =
     (if state p = PPlaying then (True, p)
      else if state p = PPaused then (True, Player_resume p)
      else if state p = PError then (False, p)
      else
        (True,
         p\<lparr>audio_reader := startDecoding (audio_reader p),
            audio_out := (if \<not> paused (audio_out p) then ap_resume (audio_out p)
                          else audio_out p),
            video_reader := startDecoding (video_reader p),
            state := PPlaying\<rparr>))"

definition Player_pause :: "player \<Rightarrow> player" where
  "Player_pause p =
     (if state p \<noteq> PPlaying then p
      else
        p\<lparr>video_reader := pauseDecoding (video_reader p),
           audio_reader := pauseDecoding (audio_reader p),
           audio_out := ap_pause (audio_out p),
           state := PPaused\<rparr>)"

definition Player_stop :: "player \<Rightarrow> player" where
  "Player_stop p =
     (if state p = PStopped then p
      else
        p\<lparr>audio_out := ap_stop (audio_out p),
           audio_reader := stopDecoding (audio_reader p),
           video_reader := stopDecoding (video_reader p),
           renderer := clearFrames (renderer p),
           state := PStopped\<rparr>)"

section \<open>Example files\<close>

text \<open>
  A video stream and an audio stream with time base 1/1000, a packet of the video
  stream that decodes to seven frames 40 ms apart from 900 ms on, and three files built
  from them: one with both streams, one with the video stream only, and one on which
  reading fails right after a seek.
\<close>

definition demo_video_stream :: av_stream where
  "demo_video_stream =
     \<lparr>stream_codec_type = AVMEDIA_TYPE_VIDEO, rescale_to_us = (\<lambda>x. x * 1000),
      rescale_from_us = (\<lambda>x. x div 1000), stream_duration = 10000, codec_ok = True,
      par_sample_rate = 0, par_channels = 0, par_format = 0, par_width = 640,
      par_height = 360, avg_frame_rate = (25, 1), r_frame_rate = (25, 1)\<rparr>"

definition demo_audio_stream :: av_stream where
  "demo_audio_stream =
     \<lparr>stream_codec_type = AVMEDIA_TYPE_AUDIO, rescale_to_us = (\<lambda>x. x * 1000),
      rescale_from_us = (\<lambda>x. x div 1000), stream_duration = 10000, codec_ok = True,
      par_sample_rate = 8000, par_channels = 1, par_format = 1, par_width = 0,
      par_height = 0, avg_frame_rate = (0, 0), r_frame_rate = (0, 0)\<rparr>"

definition demo_frame :: "int \<Rightarrow> recv_event" where
  "demo_frame t =
     RecvFrame \<lparr>av_pts = t, av_duration = 40, nb_samples = 0, av_payload = nat t,
                clone_ok = True\<rparr>"

definition demo_packets :: "read_event list" where
  "demo_packets =
     [ReadPacket \<lparr>pkt_stream_index = 0, pkt_size = 1200, pkt_pts = 900, send_result = 0,
                   decoded = [demo_frame 900, demo_frame 940, demo_frame 1000,
                              demo_frame 1040, demo_frame 1080, demo_frame 1120,
                              demo_frame 1160]\<rparr>]"

definition demo_file :: media_file where
  "demo_file =
     \<lparr>open_input_ok = True, stream_info_ok = True,
      file_ctx = \<lparr>streams = [demo_video_stream, demo_audio_stream],
                  fmt_duration = 10000000, pending = demo_packets,
                  seek_frame = (\<lambda>idx target. Some demo_packets)\<rparr>\<rparr>"

definition video_only_file :: media_file where
  "video_only_file =
     \<lparr>open_input_ok = True, stream_info_ok = True,
      file_ctx = \<lparr>streams = [demo_video_stream],
                  fmt_duration = 10000000, pending = demo_packets,
                  seek_frame = (\<lambda>idx target. Some demo_packets)\<rparr>\<rparr>"


definition demo_env :: sys_env where
  "demo_env =
     \<lparr>sdl_was_init = False, sdl_init_ok = True, sdl_device = 2, sdl_have_matches = True,
      swr_alloc_ok = True, swr_init_ok = True, glfw_init_ok = True, glfw_window_ok = True\<rparr>"

text \<open>
  The two sources as \<^verbatim>\<open>open\<close> leaves them on such a file, and the player after a
  successful \<^verbatim>\<open>open\<close> of the file with both streams.
\<close>

definition video_source :: "media_file \<Rightarrow> stream_source" where
  "video_source file =
     (StreamSource_new Video)\<lparr>
       src_width := 640, src_height := 360, frame_rate := 25,
       decoder := Some ((Decoder_new Video)\<lparr>codec_ctx := True, cfg_width := 640, cfg_height := 360\<rparr>),
       demuxer := Some ((Demuxer_new Video)\<lparr>dmx_ctx := Some (file_ctx file), stream_index := 0\<rparr>)\<rparr>"

definition audio_source :: "media_file \<Rightarrow> stream_source" where
  "audio_source file =
     (StreamSource_new Audio)\<lparr>
       src_sample_rate := 8000, src_channels := 1, src_sample_fmt := 1,
       decoder := Some ((Decoder_new Audio)\<lparr>codec_ctx := True, cfg_sample_rate := 8000,
                          cfg_channels := 1, cfg_sample_format := 1\<rparr>),
       demuxer := Some ((Demuxer_new Audio)\<lparr>dmx_ctx := Some (file_ctx file), stream_index := 1\<rparr>)\<rparr>"

definition opened_player :: player where
  "opened_player = snd (Player_open ''clip.mkv'' demo_file demo_env Player_new)"


section \<open>Theorems\<close>

subsection \<open>Frame queue\<close>

lemma pushFrameToQueue_bound:
  "length q \<le> MAX_QUEUE_SIZE ty \<Longrightarrow> length (pushFrameToQueue ty fo q) \<le> MAX_QUEUE_SIZE ty"
  by (simp add: pushFrameToQueue_def split: option.splits)

lemma getNextFrame_length: "length (snd (getNextFrame q)) \<le> length q"
  by (simp add: getNextFrame_def split: list.splits)

lemma clearFrameQueue_empty: "clearFrameQueue q = []"
  by (induction q) simp_all

lemma queue_step_bound:
  "length q \<le> MAX_QUEUE_SIZE ty \<Longrightarrow> length (queue_step ty x q) \<le> MAX_QUEUE_SIZE ty"
proof (cases x)
  case (QPush fo)
  assume "length q \<le> MAX_QUEUE_SIZE ty"
  with QPush show ?thesis by (simp add: pushFrameToQueue_bound)
next
  case QGet
  assume "length q \<le> MAX_QUEUE_SIZE ty"
  with QGet getNextFrame_length [of q] show ?thesis by simp
next
  case QClear
  then show ?thesis by (simp add: clearFrameQueue_empty)
qed

lemma queue_run_bound:
  "length q \<le> MAX_QUEUE_SIZE ty \<Longrightarrow> length (queue_run ty xs q) \<le> MAX_QUEUE_SIZE ty"
  by (induction xs arbitrary: q) (simp_all add: queue_step_bound)

text \<open>
  C7. The queue of a stream source starts empty, and after any history of pushes, gets
  and clears its length is at most the capacity, which is 30 for a video source and 50
  for an audio source. A push onto a full queue leaves the queue as it is (the new frame
  is dropped), and \<^verbatim>\<open>getNextFrame\<close> on an empty queue returns no frame at once.
\<close>

theorem frame_queue_bounded:
  "length (queue_run ty ops []) \<le> MAX_QUEUE_SIZE ty
   \<and> MAX_QUEUE_SIZE Video = 30 \<and> MAX_QUEUE_SIZE Audio = 50
   \<and> (\<forall>q fo. length q \<ge> MAX_QUEUE_SIZE ty \<longrightarrow> pushFrameToQueue ty fo q = q)
   \<and> getNextFrame [] = (None, [])"
proof -
  have "length (queue_run ty ops []) \<le> MAX_QUEUE_SIZE ty"
    by (rule queue_run_bound) simp
  moreover have "\<forall>q fo. length q \<ge> MAX_QUEUE_SIZE ty \<longrightarrow> pushFrameToQueue ty fo q = q"
    by (simp add: pushFrameToQueue_def split: option.splits)
  ultimately show ?thesis
    by (simp add: MAX_QUEUE_SIZE_def getNextFrame_def)
qed

theorem frame_queue_bounded_witness:
  "length (queue_run Video [QPush (Some \<lparr>payload = 1, pts = 0, duration = 40000\<rparr>), QGet, QGet] []) \<le> 30
   \<and> length (replicate 30 \<lparr>payload = 1, pts = 0, duration = 40000\<rparr>) \<ge> MAX_QUEUE_SIZE Video
   \<and> pushFrameToQueue Video (Some \<lparr>payload = 2, pts = 40000, duration = 40000\<rparr>)
         (replicate 30 \<lparr>payload = 1, pts = 0, duration = 40000\<rparr>)
       = replicate 30 \<lparr>payload = 1, pts = 0, duration = 40000\<rparr>"
  using frame_queue_bounded [of Video "[QPush (Some \<lparr>payload = 1, pts = 0, duration = 40000\<rparr>), QGet, QGet]"]
  by (simp add: MAX_QUEUE_SIZE_def)

subsection \<open>Volume\<close>

lemma setVolume_in_range:
  assumes "0 \<le> x" "x \<le> 1"
  shows "setVolume (Some x) = \<lfloor>x * 128 + 1 / 2\<rfloor>"
  using assms by (simp add: setVolume_def std_round_def SDL_MIX_MAXVOLUME_def Let_def)

lemma setVolume_getVolume_int:
  assumes "0 \<le> v" "v \<le> 128"
  shows "setVolume (Some (getVolume v)) = v"
proof -
  have "0 \<le> getVolume v" "getVolume v \<le> 1"
    using assms by (simp_all add: getVolume_def SDL_MIX_MAXVOLUME_def)
  then have "setVolume (Some (getVolume v)) = \<lfloor>getVolume v * 128 + 1 / 2\<rfloor>"
    by (rule setVolume_in_range)
  also have "getVolume v * 128 = real_of_int v"
    by (simp add: getVolume_def SDL_MIX_MAXVOLUME_def)
  also have "\<lfloor>real_of_int v + 1 / 2\<rfloor> = v"
    by linarith
  finally show ?thesis .
qed

lemma setVolume_bounds:
  assumes "0 \<le> x" "x \<le> 1"
  shows "0 \<le> setVolume (Some x) \<and> setVolume (Some x) \<le> 128"
proof -
  have "setVolume (Some x) = \<lfloor>x * 128 + 1 / 2\<rfloor>"
    using assms by (rule setVolume_in_range)
  moreover have "0 \<le> \<lfloor>x * 128 + 1 / 2\<rfloor>"
    using assms by simp
  moreover have "\<lfloor>x * 128 + 1 / 2\<rfloor> \<le> 128"
  proof -
    have "x * 128 + 1 / 2 < 129" using assms by simp
    then have "\<lfloor>x * 128 + 1 / 2\<rfloor> < 129" by linarith
    then show ?thesis by simp
  qed
  ultimately show ?thesis by simp
qed

text \<open>
  C10. For an input \<open>x\<close> in \<open>[0, 1]\<close> (a real number, so not NaN), \<^verbatim>\<open>getVolume\<close> after
  \<^verbatim>\<open>setVolume(x)\<close> returns \<open>round (x * M) / M\<close> with \<open>M = 128\<close>, which is within
  \<open>1 / (2 * M)\<close> of \<open>x\<close>, and storing the value read back leaves the stored volume as
  it is.
\<close>

theorem volume_round_trip:
  assumes "0 \<le> x" "x \<le> 1"
  shows "getVolume (setVolume (Some x)) = real_of_int (round (x * 128)) / 128
         \<and> \<bar>getVolume (setVolume (Some x)) - x\<bar> \<le> 1 / (2 * 128)
         \<and> setVolume (Some (getVolume (setVolume (Some x)))) = setVolume (Some x)"
proof -
  let ?v = "setVolume (Some x)"
  have v: "?v = \<lfloor>x * 128 + 1 / 2\<rfloor>"
    using assms by (rule setVolume_in_range)
  have first: "getVolume ?v = real_of_int (round (x * 128)) / 128"
    by (simp add: v getVolume_def SDL_MIX_MAXVOLUME_def round_def)
  define n where "n = real_of_int \<lfloor>x * 128 + 1 / 2\<rfloor>"
  have lo: "n \<le> x * 128 + 1 / 2"
    unfolding n_def by linarith
  have hi: "x * 128 + 1 / 2 < n + 1"
    unfolding n_def by linarith
  have "getVolume ?v = n / 128"
    by (simp add: v getVolume_def SDL_MIX_MAXVOLUME_def n_def)
  moreover have "\<bar>n / 128 - x\<bar> \<le> 1 / (2 * 128)"
    using lo hi by linarith
  ultimately have second: "\<bar>getVolume ?v - x\<bar> \<le> 1 / (2 * 128)"
    by (simp only:)
  have third: "setVolume (Some (getVolume ?v)) = ?v"
    using setVolume_bounds [OF assms] by (simp add: setVolume_getVolume_int)
  from first second third show ?thesis by simp
qed

theorem volume_round_trip_witness:
  "(0::real) \<le> 3 / 10 \<and> (3 / 10 :: real) \<le> 1
   \<and> getVolume (setVolume (Some (3 / 10))) = 38 / 128
   \<and> setVolume (Some (getVolume (setVolume (Some (3 / 10))))) = 38"
proof -
  have h0: "(0::real) \<le> 3 / 10" and h1: "(3 / 10 :: real) \<le> 1"
    by simp_all
  have r: "round (3 / 10 * 128 :: real) = 38"
    by (simp add: round_def)
  have s: "setVolume (Some (3 / 10)) = 38"
    by (simp add: setVolume_def std_round_def SDL_MIX_MAXVOLUME_def Let_def)
  from volume_round_trip [OF h0 h1] r s show ?thesis
    by simp
qed

subsection \<open>Sync bands\<close>

lemma sync_thresholds:
  "AV_SYNC_THRESHOLD_MIN = 40000" "AV_SYNC_THRESHOLD_MAX = 100000"
  "AV_SYNC_FRAMEDUP_THRESHOLD = 200000"
  by (simp_all add: AV_SYNC_THRESHOLD_MIN_def AV_SYNC_THRESHOLD_MAX_def
      AV_SYNC_FRAMEDUP_THRESHOLD_def AV_TIME_BASE_def)

text \<open>
  C1. With the video 150 ms ahead of the audio clock (\<open>video_pts = 150000\<close>,
  \<open>audio_clock = 0\<close>) and a nominal delay of 40 ms, the bands of the specification
  give the hard correction \<open>max 0 (d + diff) = 0.19\<close>; the code compares \<open>diff\<close>, a
  number of seconds, with thresholds that are numbers of microseconds, finds
  \<open>0.15 < 40000\<close> and leaves the delay at 0.04.
\<close>

theorem sync_delay_unit_mismatch:
  "sync_diff 150000 0 = 15 / 100
   \<and> sync_delay 150000 0 (4 / 100) = 4 / 100
   \<and> spec_sync_delay 150000 0 (4 / 100) = 19 / 100"
  by (simp add: sync_delay_def spec_sync_delay_def sync_diff_def sync_thresholds
      AV_TIME_BASE_def Let_def)

subsection \<open>PCM ring: arithmetic modulo \<open>2\<^sup>6\<^sup>4\<close> and two-segment copies\<close>

lemma msub_int:
  fixes a b m :: nat
  assumes "0 < m"
  shows "int ((a + (m - b mod m)) mod m) = (int a - int b) mod int m"
proof -
  have le: "b mod m \<le> m" using assms by (simp add: less_imp_le)
  have "int (m - b mod m) = int m - int (b mod m)"
    using le by (rule of_nat_diff)
  then have "int ((a + (m - b mod m)) mod m) = (int a + (int m - int b mod int m)) mod int m"
    by (simp only: zmod_int of_nat_add)
  also have "int a + (int m - int b mod int m) = (int a - int b mod int m) + int m"
    by simp
  also have "((int a - int b mod int m) + int m) mod int m = (int a - int b mod int m) mod int m"
    by simp
  also have "\<dots> = (int a - int b) mod int m"
    by (simp add: mod_diff_right_eq)
  finally show ?thesis .
qed

lemma msub_after_add:
  fixes a b k m :: nat
  assumes "0 < m"
  shows "((a + k) mod m + (m - b mod m)) mod m = ((a + (m - b mod m)) mod m + k) mod m"
proof -
  have "int (((a + k) mod m + (m - b mod m)) mod m) = (int ((a + k) mod m) - int b) mod int m"
    using assms by (rule msub_int)
  also have "\<dots> = ((int a + int k) mod int m - int b) mod int m"
    by (simp add: zmod_int)
  also have "\<dots> = (int a + int k - int b) mod int m"
    by (simp add: mod_diff_left_eq)
  also have "int a + int k - int b = (int a - int b) + int k" by simp
  also have "((int a - int b) + int k) mod int m = ((int a - int b) mod int m + int k) mod int m"
    by (simp add: mod_add_left_eq)
  also have "\<dots> = int (((a + (m - b mod m)) mod m + k) mod m)"
    using msub_int [OF assms, of a b] by (simp add: zmod_int)
  finally show ?thesis by (simp only: of_nat_eq_iff)
qed

lemma msub_after_sub:
  fixes a b k m :: nat
  assumes "0 < m" and "k \<le> (a + (m - b mod m)) mod m"
  shows "(a + (m - ((b + k) mod m) mod m)) mod m = (a + (m - b mod m)) mod m - k"
proof -
  let ?occ = "(a + (m - b mod m)) mod m"
  have occ: "int ?occ = (int a - int b) mod int m"
    using assms(1) by (rule msub_int)
  have "int ((a + (m - ((b + k) mod m) mod m)) mod m) = (int a - int ((b + k) mod m)) mod int m"
    using assms(1) by (rule msub_int)
  also have "\<dots> = (int a - (int b + int k) mod int m) mod int m"
    by (simp add: zmod_int)
  also have "\<dots> = (int a - (int b + int k)) mod int m"
    by (simp add: mod_diff_right_eq)
  also have "int a - (int b + int k) = (int a - int b) - int k" by simp
  also have "((int a - int b) - int k) mod int m = ((int a - int b) mod int m - int k) mod int m"
    by (simp add: mod_diff_left_eq)
  also have "\<dots> = (int ?occ - int k) mod int m"
    by (simp only: occ)
  also have "\<dots> = int ?occ - int k"
  proof -
    have "0 \<le> int ?occ - int k" using assms(2) by simp
    moreover have "int ?occ - int k < int m" using assms(1)
      by (smt (verit) mod_less_divisor of_nat_0_le_iff of_nat_less_iff)
    ultimately show ?thesis by (rule mod_pos_pos_trivial)
  qed
  also have "\<dots> = int (?occ - k)" using assms(2) by (simp only: of_nat_diff)
  finally show ?thesis by (simp only: of_nat_eq_iff)
qed

lemma msub_le:
  fixes a b m :: nat
  assumes "b \<le> a" "a < m"
  shows "(a + (m - b mod m)) mod m = a - b"
proof -
  have m: "0 < m" using assms by simp
  have "int ((a + (m - b mod m)) mod m) = (int a - int b) mod int m"
    using m by (rule msub_int)
  also have "\<dots> = int a - int b" using assms by simp
  also have "\<dots> = int (a - b)" using assms by simp
  finally show ?thesis by (simp only: of_nat_eq_iff)
qed

lemma usub64_le: "b \<le> a \<Longrightarrow> a < two64 \<Longrightarrow> usub64 a b = a - b"
  unfolding usub64_def by (rule msub_le)

lemma two64_pos: "0 < two64"
  by (simp add: two64_def)

lemma usub64_after_add: "usub64 (u64 (a + k)) b = (usub64 a b + k) mod two64"
  unfolding usub64_def u64_def by (rule msub_after_add) (rule two64_pos)

lemma usub64_after_sub: "k \<le> usub64 a b \<Longrightarrow> usub64 a (u64 (b + k)) = usub64 a b - k"
  unfolding usub64_def u64_def by (rule msub_after_sub) (simp_all add: two64_pos)

lemma u64_lt: "u64 a < two64"
  by (simp add: u64_def two64_pos)

lemma u64_id: "a < two64 \<Longrightarrow> u64 a = a"
  by (simp add: u64_def)

lemma length_memcpy_to: "length (memcpy_to dst off src) = length dst"
  by (induction src arbitrary: dst off) simp_all

lemma free_space_eq: "ring_ok ap \<Longrightarrow> free_space ap = pcm_ring_cap ap - occupancy ap"
  by (simp add: ring_ok_def free_space_def usub64_le)

lemma push_cases:
  obtains (idle) "pushPCMData data ap = (0, ap)"
  | (copy) d where "data = Some d" "d \<noteq> []" "pcm_ring_cap ap \<noteq> 0" "free_space ap \<noteq> 0"
      "fst (pushPCMData data ap) = min (length d) (free_space ap)"
      "pcm_ring_write (snd (pushPCMData data ap)) = u64 (pcm_ring_write ap + min (length d) (free_space ap))"
      "pcm_ring_read (snd (pushPCMData data ap)) = pcm_ring_read ap"
      "pcm_ring_cap (snd (pushPCMData data ap)) = pcm_ring_cap ap"
      "length (pcm_ring_buf (snd (pushPCMData data ap))) = length (pcm_ring_buf ap)"
proof (cases data)
  case None
  then have "pushPCMData data ap = (0, ap)" by (simp add: pushPCMData_def)
  then show ?thesis by (rule idle)
next
  case (Some d)
  show ?thesis
  proof (cases "d = [] \<or> pcm_ring_cap ap = 0 \<or> free_space ap = 0")
    case True
    then have "pushPCMData data ap = (0, ap)"
      using Some by (auto simp: pushPCMData_def free_space_def occupancy_def Let_def)
    then show ?thesis by (rule idle)
  next
    case False
    then have a: "d \<noteq> []" "pcm_ring_cap ap \<noteq> 0" "free_space ap \<noteq> 0" by simp_all
    show ?thesis
      by (rule copy [OF Some a])
        (use Some a in \<open>simp_all add: pushPCMData_def free_space_def occupancy_def Let_def length_memcpy_to\<close>)
  qed
qed

lemma push_ok:
  assumes ok: "ring_ok ap"
  shows "fst (pushPCMData data ap) \<le> (case data of None \<Rightarrow> 0 | Some d \<Rightarrow> length d)
    \<and> fst (pushPCMData data ap) \<le> free_space ap
    \<and> pcm_ring_write (snd (pushPCMData data ap)) = u64 (pcm_ring_write ap + fst (pushPCMData data ap))
    \<and> pcm_ring_read (snd (pushPCMData data ap)) = pcm_ring_read ap
    \<and> pcm_ring_cap (snd (pushPCMData data ap)) = pcm_ring_cap ap
    \<and> occupancy (snd (pushPCMData data ap)) = occupancy ap + fst (pushPCMData data ap)
    \<and> ring_ok (snd (pushPCMData data ap))"
proof (cases data ap rule: push_cases)
  case idle
  then show ?thesis using ok by (simp add: ring_ok_def u64_id)
next
  case (copy d)
  let ?k = "min (length d) (free_space ap)"
  let ?ap = "snd (pushPCMData data ap)"
  have fs: "free_space ap = pcm_ring_cap ap - occupancy ap"
    using ok by (rule free_space_eq)
  have occ_le: "occupancy ap \<le> pcm_ring_cap ap" and cap: "pcm_ring_cap ap < two64"
    using ok by (simp_all add: ring_ok_def)
  have sum_le: "occupancy ap + ?k \<le> pcm_ring_cap ap"
    using fs occ_le by simp
  have "occupancy ?ap = (occupancy ap + ?k) mod two64"
    unfolding occupancy_def copy(6,7) by (rule usub64_after_add)
  also have "\<dots> = occupancy ap + ?k"
    using sum_le cap by simp
  finally have occ: "occupancy ?ap = occupancy ap + ?k" .
  have "ring_ok ?ap"
    unfolding ring_ok_def using ok occ sum_le copy(6-9)
    by (simp add: ring_ok_def u64_lt)
  moreover have "fst (pushPCMData data ap) \<le> (case data of None \<Rightarrow> 0 | Some d \<Rightarrow> length d)"
    by (simp add: copy(5)) (simp add: copy(1))
  ultimately show ?thesis
    using copy(5-8) occ by simp
qed

lemma ring_index:
  fixes p i c :: nat
  assumes "0 < c" "i < c"
  shows "(p + i) mod c = (if i < c - p mod c then p mod c + i else i - (c - p mod c))"
proof -
  let ?w = "p mod c"
  have w: "?w < c" using assms(1) by simp
  have eq: "(p + i) mod c = (?w + i) mod c" by (simp add: mod_add_left_eq)
  show ?thesis
  proof (cases "i < c - ?w")
    case True
    then have "?w + i < c" by simp
    then show ?thesis using True eq by simp
  next
    case False
    then have ge: "c \<le> ?w + i" by simp
    have lt: "?w + i - c < c" using w assms(2) by linarith
    have "(?w + i) mod c = (?w + i - c) mod c" using ge by (simp add: le_mod_geq)
    also have "\<dots> = ?w + i - c" using lt by simp
    also have "\<dots> = i - (c - ?w)" using w ge by simp
    finally show ?thesis using False eq by simp
  qed
qed

lemma nth_memcpy_to:
  "i < length dst \<Longrightarrow>
   memcpy_to dst off src ! i =
     (if off \<le> i \<and> i < off + length src then src ! (i - off) else dst ! i)"
proof (induction src arbitrary: dst off)
  case Nil
  then show ?case by auto
next
  case (Cons b bs)
  then show ?case
    by (auto simp: nth_list_update nth_Cons' Suc_diff_le)
qed

lemma mod_neq_near:
  fixes x y c :: nat
  assumes "x < y" "y < x + c"
  shows "x mod c \<noteq> y mod c"
proof
  assume "x mod c = y mod c"
  then have "y mod c = x mod c" by simp
  moreover have "x \<le> y" using assms(1) by simp
  ultimately have "c dvd y - x" by (simp only: mod_eq_dvd_iff_nat)
  moreover have "0 < y - x" "y - x < c" using assms by simp_all
  ultimately show False by (simp add: dvd_imp_le leD)
qed

lemma two_writes_nth:
  assumes "length buf = c" "j < c"
  shows "memcpy_to (memcpy_to buf w s1) 0 s2 ! j =
           (if j < length s2 then s2 ! j
            else if w \<le> j \<and> j < w + length s1 then s1 ! (j - w) else buf ! j)"
  using assms by (simp add: nth_memcpy_to length_memcpy_to)

lemma two_chunk_written:
  fixes buf d :: "'a list" and w k c :: nat
  assumes len: "length buf = c" and w: "w < c" and kc: "k \<le> c" and kd: "k \<le> length d"
    and i: "i < k"
  shows "memcpy_to (memcpy_to buf w (take (min k (c - w)) d)) 0
           (take (k - min k (c - w)) (drop (min k (c - w)) d))
         ! (if i < c - w then w + i else i - (c - w)) = d ! i"
proof -
  define first where "first = min k (c - w)"
  define s1 where "s1 = take first d"
  define s2 where "s2 = take (k - first) (drop first d)"
  have fk: "first \<le> k" and fc: "first \<le> c - w" by (simp_all add: first_def)
  have lt1: "length s1 = first" using kd fk by (simp add: s1_def)
  have lt2: "length s2 = k - first" using kd by (simp add: s2_def)
  have goal: "memcpy_to (memcpy_to buf w s1) 0 s2
         ! (if i < c - w then w + i else i - (c - w)) = d ! i"
  proof (cases "i < c - w")
    case True
    then have ifirst: "i < first" using i by (simp add: first_def)
    have idx: "w + i < c" using True by simp
    have notsecond: "\<not> (w + i < k - first)"
    proof (cases "k \<le> c - w")
      case True
      then have "first = k" by (simp add: first_def)
      then show ?thesis by simp
    next
      case False
      then have "first = c - w" by (simp add: first_def)
      then show ?thesis using kc w by linarith
    qed
    have "memcpy_to (memcpy_to buf w s1) 0 s2 ! (w + i) = s1 ! i"
      using notsecond ifirst by (simp add: two_writes_nth [OF len idx] lt1 lt2)
    also have "\<dots> = d ! i" using ifirst by (simp add: s1_def)
    finally show ?thesis using True by simp
  next
    case False
    then have first: "first = c - w" using i by (simp add: first_def)
    have idx: "i - (c - w) < k - first" using False i first by simp
    have idxc: "i - (c - w) < c" using i kc by simp
    have "memcpy_to (memcpy_to buf w s1) 0 s2 ! (i - (c - w)) = s2 ! (i - (c - w))"
      using idx by (simp add: two_writes_nth [OF len idxc] lt2)
    also have "\<dots> = drop first d ! (i - (c - w))" using idx by (simp add: s2_def)
    also have "\<dots> = d ! (first + (i - (c - w)))" using kd fk by simp
    also have "first + (i - (c - w)) = i" using False first by simp
    finally show ?thesis using False by simp
  qed
  then show ?thesis by (simp only: s1_def s2_def first_def)
qed

lemma two_chunk_kept:
  fixes buf d :: "'a list" and w k c :: nat
  assumes len: "length buf = c" and w: "w < c" and kc: "k \<le> c" and kd: "k \<le> length d"
    and j: "j < c"
    and other: "\<forall>i<k. j \<noteq> (if i < c - w then w + i else i - (c - w))"
  shows "memcpy_to (memcpy_to buf w (take (min k (c - w)) d)) 0
           (take (k - min k (c - w)) (drop (min k (c - w)) d)) ! j = buf ! j"
proof -
  define first where "first = min k (c - w)"
  define s1 where "s1 = take first d"
  define s2 where "s2 = take (k - first) (drop first d)"
  have fk: "first \<le> k" and fc: "first \<le> c - w" by (simp_all add: first_def)
  have lt1: "length s1 = first" using kd fk by (simp add: s1_def)
  have lt2: "length s2 = k - first" using kd by (simp add: s2_def)
  have notsecond: "\<not> j < k - first"
  proof
    assume a: "j < k - first"
    have first: "first = c - w"
    proof (rule ccontr)
      assume "first \<noteq> c - w"
      then have "first = k" by (simp add: first_def min_def split: if_splits)
      then show False using a by simp
    qed
    let ?i = "j + (c - w)"
    have "?i < k" using a first by simp
    moreover have "\<not> ?i < c - w" by simp
    ultimately have "j \<noteq> ?i - (c - w)" using other by metis
    then show False by simp
  qed
  have notfirst: "\<not> (w \<le> j \<and> j < w + first)"
  proof
    assume a: "w \<le> j \<and> j < w + first"
    let ?i = "j - w"
    have "?i < k" "?i < c - w" using a fk fc by linarith+
    then have "j \<noteq> w + ?i" using other by metis
    then show False using a by simp
  qed
  have "memcpy_to (memcpy_to buf w s1) 0 s2 ! j = buf ! j"
    using notsecond notfirst by (auto simp add: two_writes_nth [OF len j] lt1 lt2)
  then show ?thesis by (simp only: s1_def s2_def first_def)
qed

lemma two_chunk_read:
  fixes buf :: "'a list" and r k c :: nat
  assumes len: "length buf = c" and r: "r < c" and kc: "k \<le> c"
  shows "memcpy_from buf r (min k (c - r)) @ memcpy_from buf 0 (k - min k (c - r))
         = map (\<lambda>i. buf ! (if i < c - r then r + i else i - (c - r))) [0..<k]"
proof (rule nth_equalityI)
  let ?first = "min k (c - r)"
  have l1: "length (memcpy_from buf r ?first) = ?first"
    using len by (simp add: memcpy_from_def)
  have l2: "length (memcpy_from buf 0 (k - ?first)) = k - ?first"
    using len kc by (simp add: memcpy_from_def)
  show "length (memcpy_from buf r ?first @ memcpy_from buf 0 (k - ?first))
        = length (map (\<lambda>i. buf ! (if i < c - r then r + i else i - (c - r))) [0..<k])"
    using l1 l2 by simp
  fix i
  assume "i < length (memcpy_from buf r ?first @ memcpy_from buf 0 (k - ?first))"
  then have i: "i < k" using l1 l2 by simp
  show "(memcpy_from buf r ?first @ memcpy_from buf 0 (k - ?first)) ! i
        = map (\<lambda>i. buf ! (if i < c - r then r + i else i - (c - r))) [0..<k] ! i"
  proof (cases "i < c - r")
    case True
    then have "i < ?first" using i by simp
    then show ?thesis
      using True i len l1 by (simp add: nth_append memcpy_from_def)
  next
    case False
    then have first: "?first = c - r" using i by simp
    have "\<not> i < ?first" using False first by simp
    then show ?thesis
      using False i len l1 first by (simp add: nth_append memcpy_from_def)
  qed
qed

lemma push_buf:
  assumes "d \<noteq> []" "pcm_ring_cap ap \<noteq> 0" "free_space ap \<noteq> 0"
  shows "pcm_ring_buf (snd (pushPCMData (Some d) ap)) =
     memcpy_to (memcpy_to (pcm_ring_buf ap) (pcm_ring_write ap mod pcm_ring_cap ap)
        (take (min (min (length d) (free_space ap)) (pcm_ring_cap ap - pcm_ring_write ap mod pcm_ring_cap ap)) d)) 0
       (take (min (length d) (free_space ap) - min (min (length d) (free_space ap)) (pcm_ring_cap ap - pcm_ring_write ap mod pcm_ring_cap ap))
          (drop (min (min (length d) (free_space ap)) (pcm_ring_cap ap - pcm_ring_write ap mod pcm_ring_cap ap)) d))"
proof -
  define k where "k = min (length d) (free_space ap)"
  define first where "first = min k (pcm_ring_cap ap - pcm_ring_write ap mod pcm_ring_cap ap)"
  define buf1 where "buf1 = memcpy_to (pcm_ring_buf ap) (pcm_ring_write ap mod pcm_ring_cap ap) (take first d)"
  have "pcm_ring_buf (snd (pushPCMData (Some d) ap)) =
        (if k - first > 0 then memcpy_to buf1 0 (take (k - first) (drop first d)) else buf1)"
    using assms
    by (simp add: pushPCMData_def free_space_def occupancy_def Let_def k_def first_def buf1_def)
  also have "\<dots> = memcpy_to buf1 0 (take (k - first) (drop first d))"
    by simp
  finally show ?thesis
    by (simp only: k_def first_def buf1_def)
qed

lemma occupancy_lin: "ring_lin ap \<Longrightarrow> occupancy ap = pcm_ring_write ap - pcm_ring_read ap"
  by (simp add: ring_lin_def ring_ok_def occupancy_def usub64_le)

lemma push_contents:
  assumes lin: "ring_lin ap"
    and nowrap: "pcm_ring_write ap + length d < two64"
  shows "ring_contents (snd (pushPCMData (Some d) ap))
           = ring_contents ap @ take (fst (pushPCMData (Some d) ap)) d
         \<and> ring_lin (snd (pushPCMData (Some d) ap))"
proof (cases "Some d" ap rule: push_cases)
  case idle
  then show ?thesis using lin by simp
next
  case (copy d')
  then have dd: "d' = d" by simp
  note c = copy [unfolded dd]
  define k where "k = min (length d) (free_space ap)"
  define cap where "cap = pcm_ring_cap ap"
  define rd where "rd = pcm_ring_read ap"
  define wr where "wr = pcm_ring_write ap"
  define buf where "buf = pcm_ring_buf ap"
  define ap' where "ap' = snd (pushPCMData (Some d) ap)"
  define buf' where "buf' = pcm_ring_buf ap'"
  have ok: "ring_ok ap" and le: "rd \<le> wr" using lin by (simp_all add: ring_lin_def rd_def wr_def)
  have occ: "occupancy ap = wr - rd" using lin by (simp add: occupancy_lin rd_def wr_def)
  have fs: "free_space ap = cap - occupancy ap" using ok by (simp add: free_space_eq cap_def)
  have cap_pos: "0 < cap" using c(3) by (simp add: cap_def)
  have len: "length buf = cap" using ok by (simp add: ring_ok_def buf_def cap_def)
  have occ_le: "occupancy ap \<le> cap" using ok by (simp add: ring_ok_def cap_def)
  have k_le: "occupancy ap + k \<le> cap" using fs occ_le by (simp add: k_def)
  have kd: "k \<le> length d" by (simp add: k_def)
  have kc: "k \<le> cap" using k_le by simp
  have w: "wr mod cap < cap" using cap_pos by simp
  have pk: "fst (pushPCMData (Some d) ap) = k" using c(5) by (simp add: k_def)
  have wr': "pcm_ring_write ap' = wr + k"
  proof -
    have "wr + k < two64" using nowrap kd by (simp add: wr_def)
    then show ?thesis using c(6) by (simp add: ap'_def wr_def k_def u64_id)
  qed
  have rd': "pcm_ring_read ap' = rd" using c(7) by (simp add: ap'_def rd_def)
  have cap': "pcm_ring_cap ap' = cap" using c(8) by (simp add: ap'_def cap_def)
  have ok': "ring_ok ap'" using push_ok [OF ok, of "Some d"] by (simp add: ap'_def)
  have lin': "ring_lin ap'" using ok' rd' wr' le by (simp add: ring_lin_def)
  have occ': "occupancy ap' = occupancy ap + k"
    using lin' occ le by (simp add: occupancy_lin rd' wr')
  have buf'_eq: "buf' = memcpy_to (memcpy_to buf (wr mod cap) (take (min k (cap - wr mod cap)) d)) 0
       (take (k - min k (cap - wr mod cap)) (drop (min k (cap - wr mod cap)) d))"
    unfolding buf'_def ap'_def k_def cap_def wr_def buf_def
    by (rule push_buf [OF c(2) c(3) c(4)])
  have written: "buf' ! ((wr + i) mod cap) = d ! i" if "i < k" for i
  proof -
    have "i < cap" using that kc by simp
    then have "(wr + i) mod cap = (if i < cap - wr mod cap then wr mod cap + i else i - (cap - wr mod cap))"
      using cap_pos by (simp only: ring_index)
    then show ?thesis
      unfolding buf'_eq using two_chunk_written [OF len w kc kd that] by simp
  qed
  have kept: "buf' ! ((rd + i) mod cap) = buf ! ((rd + i) mod cap)" if "i < occupancy ap" for i
  proof -
    have j: "(rd + i) mod cap < cap" using cap_pos by simp
    have "\<forall>i'<k. (rd + i) mod cap \<noteq> (if i' < cap - wr mod cap then wr mod cap + i' else i' - (cap - wr mod cap))"
    proof (intro allI impI)
      fix i' assume i': "i' < k"
      then have "i' < cap" using kc by simp
      then have idx: "(wr + i') mod cap = (if i' < cap - wr mod cap then wr mod cap + i' else i' - (cap - wr mod cap))"
        using cap_pos by (simp only: ring_index)
      have "rd + i < wr + i'" using that occ le by linarith
      moreover have "wr + i' < rd + i + cap" using that occ le k_le i' by linarith
      ultimately have ne: "(rd + i) mod cap \<noteq> (wr + i') mod cap" by (rule mod_neq_near)
      show "(rd + i) mod cap \<noteq> (if i' < cap - wr mod cap then wr mod cap + i' else i' - (cap - wr mod cap))"
        using ne unfolding idx .
    qed
    then show ?thesis
      unfolding buf'_eq by (rule two_chunk_kept [OF len w kc kd j])
  qed
  have "ring_contents ap' = ring_contents ap @ take k d"
  proof (rule nth_equalityI)
    show "length (ring_contents ap') = length (ring_contents ap @ take k d)"
      using kd by (simp add: ring_contents_def occ')
    fix i assume "i < length (ring_contents ap')"
    then have i: "i < occupancy ap + k" by (simp add: ring_contents_def occ')
    show "ring_contents ap' ! i = (ring_contents ap @ take k d) ! i"
    proof (cases "i < occupancy ap")
      case True
      have "ring_contents ap' ! i = buf' ! ((rd + i) mod cap)"
        using i by (simp add: ring_contents_def occ' rd' cap' buf'_def)
      also have "\<dots> = buf ! ((rd + i) mod cap)" using True by (rule kept)
      also have "\<dots> = ring_contents ap ! i"
        using True by (simp add: ring_contents_def rd_def cap_def buf_def)
      finally show ?thesis using True by (simp add: nth_append ring_contents_def)
    next
      case False
      define i' where "i' = i - occupancy ap"
      have i': "i' < k" using i False by (simp add: i'_def)
      have split: "rd + i = wr + i'" using False occ le by (simp add: i'_def)
      have "ring_contents ap' ! i = buf' ! ((rd + i) mod cap)"
        using i by (simp add: ring_contents_def occ' rd' cap' buf'_def)
      also have "\<dots> = d ! i'" unfolding split using i' by (rule written)
      finally show ?thesis using False i' by (simp add: nth_append ring_contents_def i'_def)
    qed
  qed
  then show ?thesis using lin' pk by (simp add: ap'_def)
qed

lemma pop_cases:
  obtains (idle) "popPCMData out_ok n ap = (0, [], ap)"
  | (copy) "out_ok" "n \<noteq> 0" "pcm_ring_cap ap \<noteq> 0" "occupancy ap \<noteq> 0"
      "popPCMData out_ok n ap =
         (min n (occupancy ap),
          memcpy_from (pcm_ring_buf ap) (pcm_ring_read ap mod pcm_ring_cap ap)
            (min (min n (occupancy ap)) (pcm_ring_cap ap - pcm_ring_read ap mod pcm_ring_cap ap))
          @ memcpy_from (pcm_ring_buf ap) 0
              (min n (occupancy ap) - min (min n (occupancy ap)) (pcm_ring_cap ap - pcm_ring_read ap mod pcm_ring_cap ap)),
          ap\<lparr>pcm_ring_read := u64 (pcm_ring_read ap + min n (occupancy ap))\<rparr>)"
proof (cases "\<not> out_ok \<or> n = 0 \<or> pcm_ring_cap ap = 0 \<or> occupancy ap = 0")
  case True
  then have "popPCMData out_ok n ap = (0, [], ap)"
    by (auto simp: popPCMData_def occupancy_def Let_def)
  then show ?thesis by (rule idle)
next
  case False
  then have a: "out_ok" "n \<noteq> 0" "pcm_ring_cap ap \<noteq> 0" "occupancy ap \<noteq> 0" by simp_all
  define k where "k = min n (occupancy ap)"
  define first where "first = min k (pcm_ring_cap ap - pcm_ring_read ap mod pcm_ring_cap ap)"
  have "popPCMData out_ok n ap =
     (k, (if k - first > 0
          then memcpy_from (pcm_ring_buf ap) (pcm_ring_read ap mod pcm_ring_cap ap) first
               @ memcpy_from (pcm_ring_buf ap) 0 (k - first)
          else memcpy_from (pcm_ring_buf ap) (pcm_ring_read ap mod pcm_ring_cap ap) first),
      ap\<lparr>pcm_ring_read := u64 (pcm_ring_read ap + k)\<rparr>)"
    using a by (simp add: popPCMData_def occupancy_def Let_def k_def first_def)
  also have "(if k - first > 0
          then memcpy_from (pcm_ring_buf ap) (pcm_ring_read ap mod pcm_ring_cap ap) first
               @ memcpy_from (pcm_ring_buf ap) 0 (k - first)
          else memcpy_from (pcm_ring_buf ap) (pcm_ring_read ap mod pcm_ring_cap ap) first)
      = memcpy_from (pcm_ring_buf ap) (pcm_ring_read ap mod pcm_ring_cap ap) first
               @ memcpy_from (pcm_ring_buf ap) 0 (k - first)"
    by (simp add: memcpy_from_def)
  finally have "popPCMData out_ok n ap =
     (k, memcpy_from (pcm_ring_buf ap) (pcm_ring_read ap mod pcm_ring_cap ap) first
               @ memcpy_from (pcm_ring_buf ap) 0 (k - first),
      ap\<lparr>pcm_ring_read := u64 (pcm_ring_read ap + k)\<rparr>)" .
  then show ?thesis
    unfolding k_def first_def by (rule copy [OF a])
qed

lemma pop_ok:
  assumes ok: "ring_ok ap"
  shows "fst (popPCMData out_ok n ap) \<le> n
    \<and> fst (popPCMData out_ok n ap) \<le> occupancy ap
    \<and> length (fst (snd (popPCMData out_ok n ap))) = fst (popPCMData out_ok n ap)
    \<and> pcm_ring_read (snd (snd (popPCMData out_ok n ap))) = u64 (pcm_ring_read ap + fst (popPCMData out_ok n ap))
    \<and> pcm_ring_write (snd (snd (popPCMData out_ok n ap))) = pcm_ring_write ap
    \<and> pcm_ring_cap (snd (snd (popPCMData out_ok n ap))) = pcm_ring_cap ap
    \<and> occupancy (snd (snd (popPCMData out_ok n ap))) = occupancy ap - fst (popPCMData out_ok n ap)
    \<and> ring_ok (snd (snd (popPCMData out_ok n ap)))"
proof (cases out_ok n ap rule: pop_cases)
  case idle
  then show ?thesis using ok by (simp add: ring_ok_def u64_id)
next
  case copy
  define k where "k = min n (occupancy ap)"
  define cap where "cap = pcm_ring_cap ap"
  define r where "r = pcm_ring_read ap mod cap"
  define first where "first = min k (cap - r)"
  define ap' where "ap' = ap\<lparr>pcm_ring_read := u64 (pcm_ring_read ap + k)\<rparr>"
  have eq: "popPCMData out_ok n ap =
     (k, memcpy_from (pcm_ring_buf ap) r first @ memcpy_from (pcm_ring_buf ap) 0 (k - first), ap')"
    using copy(5) by (simp only: k_def cap_def r_def first_def ap'_def)
  have k_occ: "k \<le> occupancy ap" by (simp add: k_def)
  have occ_le: "occupancy ap \<le> cap" and len: "length (pcm_ring_buf ap) = cap"
    using ok by (simp_all add: ring_ok_def cap_def)
  have r: "r < cap" using copy(3) by (simp add: r_def cap_def)
  have fk: "first \<le> k" and fc: "first \<le> cap - r" by (simp_all add: first_def)
  have l: "length (memcpy_from (pcm_ring_buf ap) r first @ memcpy_from (pcm_ring_buf ap) 0 (k - first)) = k"
    using len fk fc k_occ occ_le by (simp add: memcpy_from_def)
  have occ': "occupancy ap' = occupancy ap - k"
    unfolding occupancy_def ap'_def using k_occ
    by (simp add: usub64_after_sub occupancy_def)
  have "occupancy ap' \<le> pcm_ring_cap ap'"
    using occ_le unfolding occ' by (simp add: ap'_def cap_def)
  then have "ring_ok ap'"
    using ok by (simp add: ring_ok_def ap'_def u64_lt)
  with occ' show ?thesis
    using l k_occ by (simp add: eq) (simp add: ap'_def k_def)
qed

lemma pop_contents:
  assumes lin: "ring_lin ap"
  shows "fst (popPCMData True n ap) = min n (length (ring_contents ap))
    \<and> fst (snd (popPCMData True n ap)) = take (fst (popPCMData True n ap)) (ring_contents ap)
    \<and> ring_contents (snd (snd (popPCMData True n ap))) = drop (fst (popPCMData True n ap)) (ring_contents ap)
    \<and> pcm_ring_write (snd (snd (popPCMData True n ap))) = pcm_ring_write ap
    \<and> ring_lin (snd (snd (popPCMData True n ap)))"
proof (cases True n ap rule: pop_cases)
  case idle
  have ok: "ring_ok ap" using lin by (simp add: ring_lin_def)
  have "n = 0 \<or> occupancy ap = 0"
  proof (cases "n = 0 \<or> pcm_ring_cap ap = 0 \<or> occupancy ap = 0")
    case True
    then show ?thesis using ok by (auto simp: ring_ok_def)
  next
    case False
    then have "fst (popPCMData True n ap) = min n (occupancy ap)"
      by (simp add: popPCMData_def occupancy_def Let_def)
    then show ?thesis using idle False by (auto simp: min_def split: if_splits)
  qed
  then show ?thesis using idle lin by (auto simp: ring_contents_def)
next
  case copy
  define k where "k = min n (occupancy ap)"
  define cap where "cap = pcm_ring_cap ap"
  define rd where "rd = pcm_ring_read ap"
  define wr where "wr = pcm_ring_write ap"
  define buf where "buf = pcm_ring_buf ap"
  define r where "r = rd mod cap"
  define first where "first = min k (cap - r)"
  define ap' where "ap' = ap\<lparr>pcm_ring_read := u64 (rd + k)\<rparr>"
  have eq: "popPCMData True n ap =
     (k, memcpy_from buf r first @ memcpy_from buf 0 (k - first), ap')"
    using copy(5) by (simp only: k_def cap_def rd_def r_def first_def ap'_def buf_def)
  have ok: "ring_ok ap" and le: "rd \<le> wr" using lin by (simp_all add: ring_lin_def rd_def wr_def)
  have occ: "occupancy ap = wr - rd" using lin by (simp add: occupancy_lin rd_def wr_def)
  have cap_pos: "0 < cap" using copy(3) by (simp add: cap_def)
  have len: "length buf = cap" using ok by (simp add: ring_ok_def buf_def cap_def)
  have occ_le: "occupancy ap \<le> cap" using ok by (simp add: ring_ok_def cap_def)
  have k_occ: "k \<le> occupancy ap" by (simp add: k_def)
  have kc: "k \<le> cap" using k_occ occ_le by simp
  have r: "r < cap" using cap_pos by (simp add: r_def)
  have wr64: "wr < two64" using ok by (simp add: ring_ok_def wr_def)
  have "rd + k \<le> wr" using k_occ occ le by simp
  then have rd': "pcm_ring_read ap' = rd + k" using wr64 by (simp add: ap'_def u64_id)
  have ok': "ring_ok ap'" using pop_ok [OF ok, of True n] by (simp add: eq)
  have lin': "ring_lin ap'" using ok' rd' \<open>rd + k \<le> wr\<close> by (simp add: ring_lin_def) (simp add: ap'_def wr_def)
  have occ': "occupancy ap' = occupancy ap - k"
    using pop_ok [OF ok, of True n] by (simp add: eq)
  have out: "memcpy_from buf r first @ memcpy_from buf 0 (k - first)
        = map (\<lambda>i. buf ! ((rd + i) mod cap)) [0..<k]"
  proof -
    have "memcpy_from buf r first @ memcpy_from buf 0 (k - first)
        = map (\<lambda>i. buf ! (if i < cap - r then r + i else i - (cap - r))) [0..<k]"
      unfolding first_def by (rule two_chunk_read [OF len r kc])
    also have "\<dots> = map (\<lambda>i. buf ! ((rd + i) mod cap)) [0..<k]"
    proof (rule map_cong [OF refl])
      fix i assume "i \<in> set [0..<k]"
      then have "i < cap" using kc by simp
      then show "buf ! (if i < cap - r then r + i else i - (cap - r)) = buf ! ((rd + i) mod cap)"
        using cap_pos unfolding r_def by (simp only: ring_index)
    qed
    finally show ?thesis .
  qed
  have take_eq: "take k (ring_contents ap) = map (\<lambda>i. buf ! ((rd + i) mod cap)) [0..<k]"
    using k_occ by (simp add: ring_contents_def take_map rd_def cap_def buf_def min_def)
  have drop_eq: "ring_contents ap' = drop k (ring_contents ap)"
  proof (rule nth_equalityI)
    show "length (ring_contents ap') = length (drop k (ring_contents ap))"
      by (simp add: ring_contents_def occ')
    fix i assume "i < length (ring_contents ap')"
    then have i: "i < occupancy ap - k" by (simp add: ring_contents_def occ')
    then have "ring_contents ap' ! i = buf ! ((rd + k + i) mod cap)"
      by (simp add: ring_contents_def occ' rd') (simp add: ap'_def buf_def cap_def)
    also have "\<dots> = drop k (ring_contents ap) ! i"
    proof -
      have "k + i < occupancy ap" using i by simp
      then show ?thesis
        by (simp add: ring_contents_def rd_def cap_def buf_def add.assoc)
    qed
    finally show "ring_contents ap' ! i = drop k (ring_contents ap) ! i" .
  qed
  have "k = min n (length (ring_contents ap))" by (simp add: k_def ring_contents_def)
  then show ?thesis
    using out take_eq drop_eq lin' by (simp add: eq) (simp add: ap'_def)
qed


subsection \<open>PCM ring: bounds and FIFO order\<close>

lemma push_count:
  assumes "ring_ok ap"
  shows "fst (pushPCMData (Some d) ap) = min (length d) (free_space ap)"
proof (cases "d = [] \<or> pcm_ring_cap ap = 0 \<or> free_space ap = 0")
  case True
  then have idle: "pushPCMData (Some d) ap = (0, ap)"
    by (auto simp: pushPCMData_def free_space_def occupancy_def Let_def)
  have "free_space ap = pcm_ring_cap ap - occupancy ap"
    using assms by (rule free_space_eq)
  then show ?thesis using True idle by auto
next
  case False
  then show ?thesis
    by (simp add: pushPCMData_def free_space_def occupancy_def Let_def)
qed

lemma length_ring_contents: "length (ring_contents ap) = occupancy ap"
  by (simp add: ring_contents_def)

lemma ring_run_refines:
  "ring_lin ap \<Longrightarrow> pcm_ring_write ap + offered_total ops < two64 \<Longrightarrow>
   ring_run ops ap = byte_queue_run (pcm_ring_cap ap) ops (ring_contents ap)"
proof (induction ops arbitrary: ap)
  case Nil
  then show ?case by simp
next
  case (Cons x ops)
  have ok: "ring_ok ap" using Cons.prems(1) by (simp add: ring_lin_def)
  show ?case
  proof (cases x)
    case (RPush d)
    obtain k ap' where p: "pushPCMData (Some d) ap = (k, ap')" by (cases "pushPCMData (Some d) ap")
    have nowrap: "pcm_ring_write ap + length d < two64"
      using Cons.prems(2) RPush by simp
    have k: "k = min (length d) (pcm_ring_cap ap - length (ring_contents ap))"
      using push_count [OF ok, of d] free_space_eq [OF ok] p by (simp add: length_ring_contents)
    have c: "ring_contents ap' = ring_contents ap @ take k d" and lin': "ring_lin ap'"
      using push_contents [OF Cons.prems(1) nowrap] p by simp_all
    have facts: "pcm_ring_cap ap' = pcm_ring_cap ap" "pcm_ring_write ap' = u64 (pcm_ring_write ap + k)"
      using push_ok [OF ok, of "Some d"] p by simp_all
    have "k \<le> length d" using k by simp
    then have "pcm_ring_write ap + k < two64" using nowrap by simp
    then have "pcm_ring_write ap' = pcm_ring_write ap + k" using facts(2) by (simp add: u64_id)
    then have "pcm_ring_write ap' + offered_total ops < two64"
      using Cons.prems(2) RPush \<open>k \<le> length d\<close> by simp
    then have "ring_run ops ap' = byte_queue_run (pcm_ring_cap ap') ops (ring_contents ap')"
      using lin' by (rule Cons.IH [rotated])
    then show ?thesis
      using RPush p k c facts(1) by (simp add: Let_def)
  next
    case (RPop n)
    obtain k bytes ap' where p: "popPCMData True n ap = (k, bytes, ap')"
      by (cases "popPCMData True n ap") auto
    have k: "k = min n (length (ring_contents ap))"
      and b: "bytes = take k (ring_contents ap)"
      and c: "ring_contents ap' = drop k (ring_contents ap)"
      and w: "pcm_ring_write ap' = pcm_ring_write ap"
      and lin': "ring_lin ap'"
      using pop_contents [OF Cons.prems(1), of n] p by simp_all
    have cap: "pcm_ring_cap ap' = pcm_ring_cap ap"
      using pop_ok [OF ok, of True n] p by simp
    have "pcm_ring_write ap' + offered_total ops < two64"
      using Cons.prems(2) RPop w by simp
    then have "ring_run ops ap' = byte_queue_run (pcm_ring_cap ap') ops (ring_contents ap')"
      using lin' by (rule Cons.IH [rotated])
    then show ?thesis
      using RPop p k b c cap by (simp add: Let_def)
  qed
qed

lemma byte_queue_fifo:
  "prefix (popped_bytes (byte_queue_run c ops q))
     (q @ accepted_bytes ops (byte_queue_run c ops q))"
proof (induction ops arbitrary: q)
  case Nil
  then show ?case by simp
next
  case (Cons x ops)
  show ?case
  proof (cases x)
    case (RPush d)
    then show ?thesis
      using Cons.IH [of "q @ take (min (length d) (c - length q)) d"]
      by (simp add: Let_def)
  next
    case (RPop n)
    define k where "k = min n (length q)"
    define rest where "rest = byte_queue_run c ops (drop k q)"
    have "prefix (popped_bytes rest) (drop k q @ accepted_bytes ops rest)"
      unfolding rest_def by (rule Cons.IH)
    then obtain zs where zs: "drop k q @ accepted_bytes ops rest = popped_bytes rest @ zs"
      by (auto elim: prefixE)
    have "q @ accepted_bytes ops rest = take k q @ (drop k q @ accepted_bytes ops rest)"
      by simp
    also have "\<dots> = (take k q @ popped_bytes rest) @ zs"
      by (simp only: zs append_assoc)
    finally have "prefix (take k q @ popped_bytes rest) (q @ accepted_bytes ops rest)"
      by (rule prefixI)
    then show ?thesis
      using RPop by (simp add: Let_def k_def rest_def)
  qed
qed

lemma ring_copies_in_range:
  assumes "ring_ok ap" and "pcm_ring_cap ap \<noteq> 0" and "k \<le> pcm_ring_cap ap"
  shows "pos mod pcm_ring_cap ap + min k (pcm_ring_cap ap - pos mod pcm_ring_cap ap)
           \<le> length (pcm_ring_buf ap)
         \<and> k - min k (pcm_ring_cap ap - pos mod pcm_ring_cap ap) \<le> length (pcm_ring_buf ap)"
proof -
  have len: "length (pcm_ring_buf ap) = pcm_ring_cap ap"
    using assms(1) by (simp add: ring_ok_def)
  have "pos mod pcm_ring_cap ap < pcm_ring_cap ap"
    using assms(2) by simp
  then show ?thesis
    using assms(3) unfolding len by linarith
qed

text \<open>
  C8. In every well-formed ring the occupancy \<open>write_pos - read_pos\<close> is at most the
  capacity and the free space is the capacity minus the occupancy. \<^verbatim>\<open>pushPCMData\<close>
  returns \<open>k \<le> min n free_space\<close>, advances the write position by exactly \<open>k\<close>
  (modulo \<open>2\<^sup>6\<^sup>4\<close>), leaves the read position, and raises the occupancy by \<open>k\<close>;
  \<^verbatim>\<open>popPCMData\<close> returns \<open>k \<le> min n occupancy\<close>, advances the read position by
  exactly \<open>k\<close> and lowers the occupancy by \<open>k\<close>. Both keep the ring well-formed, as do
  \<^verbatim>\<open>resetClock\<close>, \<^verbatim>\<open>clear\<close> and \<^verbatim>\<open>stop\<close>, so the occupancy stays within the
  capacity.
\<close>

theorem pcm_ring_bounds:
  assumes "ring_ok ap"
  shows "occupancy ap \<le> pcm_ring_cap ap
    \<and> free_space ap = pcm_ring_cap ap - occupancy ap
    \<and> (case pushPCMData data ap of
         (k, ap') \<Rightarrow>
           k \<le> min (case data of None \<Rightarrow> 0 | Some d \<Rightarrow> length d) (free_space ap)
           \<and> pcm_ring_write ap' = u64 (pcm_ring_write ap + k)
           \<and> pcm_ring_read ap' = pcm_ring_read ap
           \<and> occupancy ap' = occupancy ap + k
           \<and> ring_ok ap')
    \<and> (case popPCMData out_ok n ap of
         (k, bytes, ap') \<Rightarrow>
           k \<le> min n (occupancy ap)
           \<and> length bytes = k
           \<and> pcm_ring_read ap' = u64 (pcm_ring_read ap + k)
           \<and> pcm_ring_write ap' = pcm_ring_write ap
           \<and> occupancy ap' = occupancy ap - k
           \<and> ring_ok ap')
    \<and> ring_ok (resetClock t ap) \<and> occupancy (resetClock t ap) = 0
    \<and> ring_ok (ap_clear ap) \<and> ring_ok (ap_stop ap)"
proof -
  have a: "occupancy ap \<le> pcm_ring_cap ap"
    using assms by (simp add: ring_ok_def)
  have b: "free_space ap = pcm_ring_cap ap - occupancy ap"
    using assms by (rule free_space_eq)
  have c: "case pushPCMData data ap of
         (k, ap') \<Rightarrow>
           k \<le> min (case data of None \<Rightarrow> 0 | Some d \<Rightarrow> length d) (free_space ap)
           \<and> pcm_ring_write ap' = u64 (pcm_ring_write ap + k)
           \<and> pcm_ring_read ap' = pcm_ring_read ap
           \<and> occupancy ap' = occupancy ap + k
           \<and> ring_ok ap'"
    using push_ok [OF assms, of data] by (simp add: case_prod_beta)
  have d: "case popPCMData out_ok n ap of
         (k, bytes, ap') \<Rightarrow>
           k \<le> min n (occupancy ap)
           \<and> length bytes = k
           \<and> pcm_ring_read ap' = u64 (pcm_ring_read ap + k)
           \<and> pcm_ring_write ap' = pcm_ring_write ap
           \<and> occupancy ap' = occupancy ap - k
           \<and> ring_ok ap'"
    using pop_ok [OF assms, of out_ok n] by (simp add: case_prod_beta)
  have z: "usub64 0 0 = 0" by (simp add: usub64_def two64_def)
  have e: "ring_ok (resetClock t ap)" "occupancy (resetClock t ap) = 0"
    using assms by (auto simp: ring_ok_def resetClock_def occupancy_def Let_def z two64_pos)
  have f: "ring_ok (ap_clear ap)" "ring_ok (ap_stop ap)"
    by (simp_all add: ring_ok_def ap_clear_def ap_stop_def occupancy_def z two64_pos)
  from a b c d e f show ?thesis by simp
qed

theorem pcm_ring_bounds_witness:
  "ring_ok demo_ring \<and> occupancy demo_ring = 2 \<and> free_space demo_ring = 2
   \<and> fst (pushPCMData (Some [9, 8, 7]) demo_ring) = 2
   \<and> occupancy (snd (pushPCMData (Some [9, 8, 7]) demo_ring)) = 4
   \<and> fst (popPCMData True 3 demo_ring) = 2
   \<and> occupancy (snd (snd (popPCMData True 3 demo_ring))) = 0"
proof -
  have occ: "occupancy demo_ring = 2"
    by (simp add: demo_ring_def occupancy_def usub64_def two64_def)
  have h: "ring_ok demo_ring"
    using occ by (simp add: ring_ok_def) (simp add: demo_ring_def two64_def)
  have fs: "free_space demo_ring = 2"
    using occ by (simp add: free_space_def) (simp add: demo_ring_def usub64_def two64_def)
  have push: "fst (pushPCMData (Some [9, 8, 7]) demo_ring) = 2"
    using fs by (simp add: pushPCMData_def Let_def free_space_def occupancy_def)
      (simp add: demo_ring_def)
  have pop: "fst (popPCMData True 3 demo_ring) = 2"
    using occ by (simp add: popPCMData_def Let_def occupancy_def)
      (simp add: demo_ring_def)
  show ?thesis
    using h occ fs push pop pcm_ring_bounds [OF h, where data = "Some [9, 8, 7]" and out_ok = True and n = 3 and t = 0]
    by (simp add: case_prod_beta)
qed

text \<open>
  C9, as amended. Starting from an empty well-formed ring, every history of pushes and
  pops that offers fewer than \<open>2\<^sup>6\<^sup>4\<close> bytes in total past the starting write position
  (so that the 64-bit positions do not wrap around) returns exactly what an unbounded
  byte queue restricted to the capacity returns, and the bytes returned by the pops,
  concatenated, are a prefix of the bytes accepted by the pushes, concatenated.
\<close>

theorem pcm_ring_fifo:
  assumes "ring_ok ap" and "pcm_ring_read ap = pcm_ring_write ap"
    and "pcm_ring_write ap + offered_total ops < two64"
  shows "ring_run ops ap = byte_queue_run (pcm_ring_cap ap) ops []
    \<and> prefix (popped_bytes (ring_run ops ap)) (accepted_bytes ops (ring_run ops ap))"
proof -
  have lin: "ring_lin ap" using assms(1,2) by (simp add: ring_lin_def)
  have "occupancy ap = 0" using lin assms(2) by (simp add: occupancy_lin)
  then have empty: "ring_contents ap = []" by (simp add: ring_contents_def)
  have run: "ring_run ops ap = byte_queue_run (pcm_ring_cap ap) ops []"
    using ring_run_refines [OF lin assms(3)] by (simp add: empty)
  have "prefix (popped_bytes (byte_queue_run (pcm_ring_cap ap) ops []))
          ([] @ accepted_bytes ops (byte_queue_run (pcm_ring_cap ap) ops []))"
    by (rule byte_queue_fifo)
  then show ?thesis using run by simp
qed

theorem pcm_ring_fifo_witness:
  "ring_ok empty_ring4 \<and> pcm_ring_read empty_ring4 = pcm_ring_write empty_ring4
   \<and> pcm_ring_write empty_ring4
        + offered_total [RPush [1, 2, 3], RPop 2, RPush [4, 5, 6, 7], RPop 10] < two64
   \<and> ring_run [RPush [1, 2, 3], RPop 2, RPush [4, 5, 6, 7], RPop 10] empty_ring4
       = [Pushed 3, Popped 2 [1, 2], Pushed 3, Popped 4 [3, 4, 5, 6]]
   \<and> prefix [1, 2, 3, 4, 5, 6] [1, 2, 3, 4, 5, 6]"
proof -
  have h1: "ring_ok empty_ring4"
    by (simp add: ring_ok_def occupancy_def usub64_def empty_ring4_def AudioPlayer_new_def two64_def)
  have h2: "pcm_ring_read empty_ring4 = pcm_ring_write empty_ring4"
    by (simp add: empty_ring4_def AudioPlayer_new_def)
  have h3: "pcm_ring_write empty_ring4
        + offered_total [RPush [1, 2, 3], RPop 2, RPush [4, 5, 6, 7], RPop 10] < two64"
    by (simp add: empty_ring4_def AudioPlayer_new_def two64_def)
  have cap: "pcm_ring_cap empty_ring4 = 4"
    by (simp add: empty_ring4_def)
  show ?thesis
    using h1 h2 h3 pcm_ring_fifo [OF h1 h2 h3]
    by (simp add: cap Let_def)
qed

lemma wrapping_ring_ok: "ring_ok wrapping_ring"
  by (simp add: ring_ok_def occupancy_def usub64_def wrapping_ring_def two64_def)

text \<open>
  Without the bound the claim fails. The positions are reduced modulo \<open>2\<^sup>6\<^sup>4\<close> and then
  modulo the capacity, and 3 does not divide \<open>2\<^sup>6\<^sup>4\<close>: on the empty ring at position
  \<open>2\<^sup>6\<^sup>4 - 1\<close> the second push overwrites a byte of the first, and the pop returns
  7, 9, 0 where 7, 8, 9 were accepted.
\<close>

theorem pcm_ring_wrap_counterexample:
  "ring_ok wrapping_ring
   \<and> pcm_ring_read wrapping_ring = pcm_ring_write wrapping_ring
   \<and> occupancy wrapping_ring = 0
   \<and> ring_run [RPush [7, 8], RPush [9], RPop 3] wrapping_ring
       = [Pushed 2, Pushed 1, Popped 3 [7, 9, 0]]
   \<and> accepted_bytes [RPush [7, 8], RPush [9], RPop 3]
         (ring_run [RPush [7, 8], RPush [9], RPop 3] wrapping_ring) = [7, 8, 9]
   \<and> popped_bytes (ring_run [RPush [7, 8], RPush [9], RPop 3] wrapping_ring) = [7, 9, 0]
   \<and> \<not> prefix (popped_bytes (ring_run [RPush [7, 8], RPush [9], RPop 3] wrapping_ring))
         (accepted_bytes [RPush [7, 8], RPush [9], RPop 3]
            (ring_run [RPush [7, 8], RPush [9], RPop 3] wrapping_ring))"
proof -
  have run: "ring_run [RPush [7, 8], RPush [9], RPop 3] wrapping_ring
       = [Pushed 2, Pushed 1, Popped 3 [7, 9, 0]]"
    by (simp add: pushPCMData_def popPCMData_def wrapping_ring_def usub64_def u64_def two64_def
        Let_def memcpy_from_def)
  have occ: "occupancy wrapping_ring = 0"
    by (simp add: occupancy_def usub64_def wrapping_ring_def two64_def)
  have eq: "pcm_ring_read wrapping_ring = pcm_ring_write wrapping_ring"
    by (simp add: wrapping_ring_def)
  have acc: "accepted_bytes [RPush [7, 8], RPush [9], RPop 3]
         (ring_run [RPush [7, 8], RPush [9], RPop 3] wrapping_ring) = [7, 8, 9]"
    unfolding run by simp
  have pop: "popped_bytes (ring_run [RPush [7, 8], RPush [9], RPop 3] wrapping_ring) = [7, 9, 0]"
    unfolding run by simp
  have np: "\<not> prefix (popped_bytes (ring_run [RPush [7, 8], RPush [9], RPop 3] wrapping_ring))
         (accepted_bytes [RPush [7, 8], RPush [9], RPop 3]
            (ring_run [RPush [7, 8], RPush [9], RPop 3] wrapping_ring))"
    unfolding acc pop by simp
  from wrapping_ring_ok eq occ run acc pop np show ?thesis by blast
qed


subsection \<open>Audio clock\<close>
























text \<open>
  C3. After \<^verbatim>\<open>resetClock(2000000)\<close> the producer meets a first frame with PTS 2021333
  and a non-empty converted buffer. The base PTS stays 2000000: the producer stores a
  frame's PTS only when the base holds \<^verbatim>\<open>AV_NOPTS_VALUE\<close>, and \<^verbatim>\<open>resetClock\<close> stores
  the target, never that sentinel. The same holds for the first frame after
  construction, where the base is 0.
\<close>

theorem producer_ignores_first_frame_pts:
  "base_pts (producer_set_base to_us 2021333 [1, 2, 3, 4] (resetClock 2000000 ap)) = 2000000
   \<and> base_pts (producer_set_base to_us 2021333 [1, 2, 3, 4] AudioPlayer_new) = 0"
  by (simp add: producer_set_base_def resetClock_def Let_def AV_NOPTS_VALUE_def AudioPlayer_new_def)


subsection \<open>Seek of a stream source\<close>











subsection \<open>Runs on the example files\<close>

lemma demo_find: "find_stream Video [demo_video_stream, demo_audio_stream] 0 = Some 0"
  by (simp add: demo_video_stream_def)


lemma open_demo:
  "StreamSource_open ''clip.mkv'' demo_file (StreamSource_new Video)
     = (True, video_source demo_file)"
  by (simp add: StreamSource_open_def Demuxer_open_def demo_file_def demo_find Demuxer_new_def
      getAVStream_def initializeDecoder_def Decoder_open_def Decoder_new_def Let_def
      demo_video_stream_def StreamSource_new_def video_source_def)





lemma demo_find_audio: "find_stream Audio [demo_video_stream, demo_audio_stream] 0 = Some 1"
  by (simp add: demo_video_stream_def demo_audio_stream_def)

lemma open_demo_audio:
  "StreamSource_open ''clip.mkv'' demo_file (StreamSource_new Audio)
     = (True, audio_source demo_file)"
  by (simp add: StreamSource_open_def Demuxer_open_def demo_file_def demo_find_audio Demuxer_new_def
      getAVStream_def initializeDecoder_def Decoder_open_def Decoder_new_def Let_def
      demo_audio_stream_def demo_video_stream_def StreamSource_new_def audio_source_def)

lemma init_demo:
  "fst (AudioPlayer_initialize demo_env (Some (audio_source demo_file)) AudioPlayer_new)"
  by (simp add: AudioPlayer_initialize_def demo_env_def audio_source_def StreamSource_new_def
      AudioPlayer_new_def AV_SAMPLE_FMT_NONE_def Let_def)

lemma init_demo_fields:
  "audio_dev (snd (AudioPlayer_initialize demo_env (Some (audio_source demo_file)) AudioPlayer_new)) = 2"
  "producer_thread (snd (AudioPlayer_initialize demo_env (Some (audio_source demo_file)) AudioPlayer_new))"
  "pcm_ring_cap (snd (AudioPlayer_initialize demo_env (Some (audio_source demo_file)) AudioPlayer_new)) = 32000"
  by (simp_all add: AudioPlayer_initialize_def demo_env_def audio_source_def StreamSource_new_def
      AudioPlayer_new_def AV_SAMPLE_FMT_NONE_def Let_def wrap32_def)

lemma start_demo:
  "GLRenderer_start demo_env 640 360 GLRenderer_new
     = (True, GLRenderer_new\<lparr>rnd_window := True, rnd_width := 640, rnd_height := 360,
                               rnd_running := True, rnd_thread := True\<rparr>)"
  by (simp add: GLRenderer_start_def demo_env_def GLRenderer_new_def Let_def)

lemma opened_player_eq:
  "Player_open ''clip.mkv'' demo_file demo_env Player_new =
     (True, Player_new\<lparr>video_reader := video_source demo_file,
                        audio_reader := audio_source demo_file,
                        audio_out := snd (AudioPlayer_initialize demo_env (Some (audio_source demo_file)) AudioPlayer_new),
                        renderer := GLRenderer_new\<lparr>rnd_window := True, rnd_width := 640, rnd_height := 360,
                               rnd_running := True, rnd_thread := True\<rparr>,
                        is_running := True, render_thread := True, state := PStopped\<rparr>)"
proof -
  have w: "src_width (video_source demo_file) = 640" "src_height (video_source demo_file) = 360"
    by (simp_all add: video_source_def)
  obtain ok ap where i: "AudioPlayer_initialize demo_env (Some (audio_source demo_file)) AudioPlayer_new = (ok, ap)"
    by (cases "AudioPlayer_initialize demo_env (Some (audio_source demo_file)) AudioPlayer_new")
  have ok: "ok" using init_demo i by simp
  show ?thesis
    by (simp add: Player_open_def Player_new_def open_demo open_demo_audio i ok w start_demo)
qed

text \<open>
  C4. \<^verbatim>\<open>open\<close> succeeds on a file with a video and an audio stream and leaves the
  player in state Stopped, with the presenter thread, the renderer, the audio device,
  the producer thread and both demuxers alive. \<^verbatim>\<open>close\<close> called now returns at its
  first line, because the state is Stopped: nothing is stopped, released or joined.
  The same happens after \<^verbatim>\<open>play\<close> and \<^verbatim>\<open>stop\<close>, the order in which \<^verbatim>\<open>main\<close>
  cleans up: \<^verbatim>\<open>stop\<close> sets the state to Stopped, and \<^verbatim>\<open>close\<close> leaves the presenter
  thread unjoined.
\<close>

theorem close_after_open_is_skipped:
  "fst (Player_open ''clip.mkv'' demo_file demo_env Player_new)
   \<and> state opened_player = PStopped
   \<and> Player_close opened_player = opened_player
   \<and> render_thread opened_player \<and> is_running opened_player
   \<and> rnd_running (renderer opened_player)
   \<and> audio_dev (audio_out opened_player) = 2
   \<and> producer_thread (audio_out opened_player)
   \<and> demuxer (video_reader opened_player) \<noteq> None
   \<and> demuxer (audio_reader opened_player) \<noteq> None
   \<and> render_thread (Player_close (Player_stop (snd (Player_play opened_player))))"
proof -
  have d: "demuxer (video_source demo_file) \<noteq> None" "demuxer (audio_source demo_file) \<noteq> None"
    by (simp_all add: video_source_def audio_source_def)
  show ?thesis
    by (simp add: opened_player_def opened_player_eq Player_close_def init_demo_fields d
        Player_play_def Player_stop_def)
qed

lemma no_audio_find:
  "\<forall>st\<in>set ss. stream_codec_type st \<noteq> AVMEDIA_TYPE_AUDIO \<Longrightarrow> find_stream Audio ss i = None"
  by (induction ss arbitrary: i) simp_all

lemma no_audio_demuxer:
  assumes "\<forall>st\<in>set (streams (file_ctx file)). stream_codec_type st \<noteq> AVMEDIA_TYPE_AUDIO"
  shows "\<not> fst (Demuxer_open filename file (Demuxer_new Audio))
    \<and> dmx_ctx (snd (Demuxer_open filename file (Demuxer_new Audio))) = None"
  using no_audio_find [OF assms, of 0]
  by (simp add: Demuxer_open_def Demuxer_new_def Demuxer_close_def Let_def)

lemma no_audio_source:
  assumes "\<forall>st\<in>set (streams (file_ctx file)). stream_codec_type st \<noteq> AVMEDIA_TYPE_AUDIO"
    and "src_type s = Audio"
  shows "\<not> fst (StreamSource_open filename file s)
    \<and> (\<exists>d. demuxer (snd (StreamSource_open filename file s)) = Some d \<and> dmx_ctx d = None)
    \<and> decoder (snd (StreamSource_open filename file s)) = decoder s"
proof -
  obtain ok d where o: "Demuxer_open filename file (Demuxer_new Audio) = (ok, d)"
    by (cases "Demuxer_open filename file (Demuxer_new Audio)")
  have "\<not> ok" "dmx_ctx d = None" using no_audio_demuxer [OF assms(1), of filename] o by simp_all
  then show ?thesis using o assms(2) by (simp add: StreamSource_open_def)
qed

lemma close_demuxer: "demuxer (StreamSource_close s) = None"
  by (simp add: StreamSource_close_def Let_def split: option.splits)

text \<open>
  C2, as amended. For every file without an audio stream \<^verbatim>\<open>open\<close> fails: it returns
  false, the state and the audio output are left as they were and no presenter thread
  is started; from state Stopped the video source is closed again and, once the video
  source has opened, the audio source is left with a closed demuxer.
\<close>

theorem open_fails_without_audio_stream:
  assumes "\<forall>st\<in>set (streams (file_ctx file)). stream_codec_type st \<noteq> AVMEDIA_TYPE_AUDIO"
    and "src_type (audio_reader p) = Audio"
  shows "\<not> fst (Player_open filename file env p)
    \<and> state (snd (Player_open filename file env p)) = state p
    \<and> audio_out (snd (Player_open filename file env p)) = audio_out p
    \<and> render_thread (snd (Player_open filename file env p)) = render_thread p
    \<and> (state p = PStopped \<longrightarrow>
          demuxer (video_reader (snd (Player_open filename file env p))) = None
          \<and> (fst (StreamSource_open filename file (video_reader p)) \<longrightarrow>
               (\<exists>d. demuxer (audio_reader (snd (Player_open filename file env p))) = Some d
                     \<and> dmx_ctx d = None)))"
proof (cases "state p = PStopped")
  case False
  then show ?thesis by (simp add: Player_open_def)
next
  case True
  obtain ok_v vr where v: "StreamSource_open filename file (video_reader p) = (ok_v, vr)"
    by (cases "StreamSource_open filename file (video_reader p)")
  obtain ok_a ar where a: "StreamSource_open filename file (audio_reader p) = (ok_a, ar)"
    by (cases "StreamSource_open filename file (audio_reader p)")
  have na: "\<not> ok_a" "\<exists>d. demuxer ar = Some d \<and> dmx_ctx d = None"
    using no_audio_source [OF assms, of filename] a by simp_all
  show ?thesis
    using True v a na by (simp add: Player_open_def close_demuxer)
qed

text \<open>
  The claim as stated fails on a file with one video stream: the video source opens,
  and \<^verbatim>\<open>Player::open\<close> returns false.
\<close>

theorem open_video_only_counterexample:
  "fst (StreamSource_open ''clip.mkv'' video_only_file (StreamSource_new Video))
   \<and> \<not> fst (Player_open ''clip.mkv'' video_only_file demo_env Player_new)"
  by (simp add: Player_open_def Player_new_def StreamSource_open_def Demuxer_open_def
      video_only_file_def Demuxer_new_def getAVStream_def initializeDecoder_def Decoder_open_def
      Decoder_new_def Let_def demo_video_stream_def StreamSource_new_def Demuxer_close_def)

theorem open_fails_without_audio_stream_witness:
  "map stream_codec_type (streams (file_ctx video_only_file)) = [AVMEDIA_TYPE_VIDEO]
   \<and> src_type (audio_reader Player_new) = Audio
   \<and> \<not> fst (Player_open ''clip.mkv'' video_only_file demo_env Player_new)
   \<and> state (snd (Player_open ''clip.mkv'' video_only_file demo_env Player_new)) = PStopped"
proof -
  have h1: "\<forall>st\<in>set (streams (file_ctx video_only_file)). stream_codec_type st \<noteq> AVMEDIA_TYPE_AUDIO"
    by (simp add: video_only_file_def demo_video_stream_def)
  have h2: "src_type (audio_reader Player_new) = Audio"
    by (simp add: Player_new_def StreamSource_new_def)
  have h0: "map stream_codec_type (streams (file_ctx video_only_file)) = [AVMEDIA_TYPE_VIDEO]"
    by (simp add: video_only_file_def demo_video_stream_def)
  have st: "state Player_new = PStopped" by (simp add: Player_new_def)
  show ?thesis
    using h0 h2 st open_fails_without_audio_stream [OF h1 h2, of "''clip.mkv''" demo_env]
    by simp
qed




end
